theory Spec2Isabelle
  imports Complex_Main
begin

section \<open>Cave generation: data model\<close>

text \<open>
  The grid is a two-dimensional integer array of shape (height, width), indexed
  \<open>grid[row, column]\<close>; it is modelled as the list of its rows. Cell states are the
  two integer constants of the source.
\<close>

type_synonym grid = "int list list"

type_synonym cell = "int \<times> int"

type_synonym region = "cell list"

definition WALL :: int where
  "WALL = 1"

definition FLOOR :: int where
  "FLOOR = 0"

text \<open>
  The source raises nothing itself; what can fail is an array access outside the
  array (IndexError) and the allocation of an array with a negative dimension
  (ValueError).
\<close>

datatype error = IndexError | ValueError

text \<open>
  An index \<open>i\<close> into an axis of length \<open>n\<close>: \<open>0 \<le> i < n\<close> reads position
  \<open>i\<close>, \<open>-n \<le> i < 0\<close> reads position \<open>n + i\<close>, anything else raises IndexError.
\<close>

definition np_index :: "nat \<Rightarrow> int \<Rightarrow> nat option" where
  "np_index n i =
     (if 0 \<le> i \<and> i < int n then Some (nat i)
      else if - int n \<le> i \<and> i < 0 then Some (nat (int n + i))
      else None)"

text \<open>\<open>grid[y, x]\<close>\<close>

definition grid_get :: "grid \<Rightarrow> int \<Rightarrow> int \<Rightarrow> error + int" where
  "grid_get g y x =
     (case np_index (length g) y of
        None \<Rightarrow> Inl IndexError
      | Some r \<Rightarrow>
          (case np_index (length (g ! r)) x of
             None \<Rightarrow> Inl IndexError
           | Some c \<Rightarrow> Inr (g ! r ! c)))"

text \<open>\<open>grid[y, x] = v\<close>\<close>

definition grid_set :: "grid \<Rightarrow> int \<Rightarrow> int \<Rightarrow> int \<Rightarrow> error + grid" where
  "grid_set g y x v =
     (case np_index (length g) y of
        None \<Rightarrow> Inl IndexError
      | Some r \<Rightarrow>
          (case np_index (length (g ! r)) x of
             None \<Rightarrow> Inl IndexError
           | Some c \<Rightarrow> Inr (g[r := (g ! r)[c := v]])))"

text \<open>\<open>range(a, b)\<close> over Python integers.\<close>

definition py_range :: "int \<Rightarrow> int \<Rightarrow> int list" where
  "py_range a b = [a..b - 1]"

text \<open>
  A \<open>for\<close> loop over a list of values with a loop state: the body runs for each
  value in order, and an exception raised by the body leaves the loop.
\<close>

fun for_loop :: "'a list \<Rightarrow> ('a \<Rightarrow> 's \<Rightarrow> error + 's) \<Rightarrow> 's \<Rightarrow> error + 's" where
  "for_loop [] body s = Inr s"
| "for_loop (v # vs) body s =
     (case body v s of Inl e \<Rightarrow> Inl e | Inr s' \<Rightarrow> for_loop vs body s')"

section \<open>Neighbor counting\<close>

definition is_edge :: "int \<Rightarrow> int \<Rightarrow> int \<Rightarrow> int \<Rightarrow> bool" where
  "is_edge x y width height \<longleftrightarrow> x = 0 \<or> y = 0 \<or> x = width - 1 \<or> y = height - 1"

text \<open>The body of the inner loop of \<open>count_wall_neighbors\<close>, for one \<open>(dx, dy)\<close>.\<close>

definition cwn_body ::
  "grid \<Rightarrow> int \<Rightarrow> int \<Rightarrow> int \<Rightarrow> int \<Rightarrow> int \<Rightarrow> int \<Rightarrow> int \<Rightarrow> error + int" where
  "cwn_body g x y width height dx dy count =
     (let nx = x + dx; ny = y + dy in
      if dx = 0 \<and> dy = 0 then Inr count
      else if (0 \<le> nx \<and> nx < width) \<and> (0 \<le> ny \<and> ny < height) then
        (case grid_get g ny nx of
           Inl e \<Rightarrow> Inl e
         | Inr v \<Rightarrow> if v = WALL then Inr (count + 1) else Inr count)
      else Inr (count + 1))"

definition count_wall_neighbors ::
  "grid \<Rightarrow> int \<Rightarrow> int \<Rightarrow> int \<Rightarrow> int \<Rightarrow> error + int" where
  "count_wall_neighbors g x y width height =
     for_loop (py_range (-1) 2)
       (\<lambda>dx. for_loop (py_range (-1) 2) (\<lambda>dy. cwn_body g x y width height dx dy)) 0"

section \<open>Shape of a grid and the neighbor count as a number\<close>

text \<open>A grid of \<open>height\<close> rows, each of \<open>width\<close> cells.\<close>

definition has_shape :: "grid \<Rightarrow> int \<Rightarrow> int \<Rightarrow> bool" where
  "has_shape g width height \<longleftrightarrow>
     int (length g) = height \<and> list_all (\<lambda>row. int (length row) = width) g"

text \<open>
  A position counts towards the neighbor count when it lies outside the grid or
  holds a WALL cell.
\<close>

definition counts_as_wall :: "grid \<Rightarrow> int \<Rightarrow> int \<Rightarrow> int \<Rightarrow> int \<Rightarrow> bool" where
  "counts_as_wall g width height nx ny \<longleftrightarrow>
     \<not> ((0 \<le> nx \<and> nx < width) \<and> (0 \<le> ny \<and> ny < height)) \<or> g ! nat ny ! nat nx = WALL"

text \<open>The 8 positions surrounding \<open>(x, y)\<close>, as \<open>(nx, ny)\<close>.\<close>

definition surrounding :: "int \<Rightarrow> int \<Rightarrow> (int \<times> int) list" where
  "surrounding x y =
     [(x - 1, y - 1), (x - 1, y), (x - 1, y + 1),
      (x, y - 1), (x, y + 1),
      (x + 1, y - 1), (x + 1, y), (x + 1, y + 1)]"

definition wall_neighbors :: "grid \<Rightarrow> int \<Rightarrow> int \<Rightarrow> int \<Rightarrow> int \<Rightarrow> int" where
  "wall_neighbors g x y width height =
     int (length (filter (\<lambda>(nx, ny). counts_as_wall g width height nx ny) (surrounding x y)))"

section \<open>Micro-smoothing and the automaton step\<close>

text \<open>
  The body of the inner loop of \<open>micro_smooth\<close>: the count is taken in \<open>grid\<close>,
  the write goes to \<open>new_grid\<close>.
\<close>

definition micro_smooth_cell ::
  "grid \<Rightarrow> int \<Rightarrow> int \<Rightarrow> int \<Rightarrow> int \<Rightarrow> grid \<Rightarrow> error + grid" where
  "micro_smooth_cell g width height y x new_grid =
     (case count_wall_neighbors g x y width height of
        Inl e \<Rightarrow> Inl e
      | Inr n \<Rightarrow>
          if n > 5 then grid_set new_grid y x WALL
          else if n < 3 then grid_set new_grid y x FLOOR
          else Inr new_grid)"

text \<open>\<open>micro_smooth(grid, width, height)\<close>; \<open>new_grid\<close> starts as a copy of \<open>grid\<close>.\<close>

definition micro_smooth :: "grid \<Rightarrow> int \<Rightarrow> int \<Rightarrow> error + grid" where
  "micro_smooth g width height =
     for_loop (py_range 1 (height - 1))
       (\<lambda>y. for_loop (py_range 1 (width - 1)) (micro_smooth_cell g width height y)) g"

text \<open>
  The body of the inner loop of one automaton step of \<open>generate_cave\<close>: the count and
  the current cell are read in \<open>grid\<close>, the write goes to \<open>new_grid\<close>.
\<close>

definition automaton_cell ::
  "grid \<Rightarrow> int \<Rightarrow> int \<Rightarrow> int \<Rightarrow> int \<Rightarrow> int \<Rightarrow> int \<Rightarrow> grid \<Rightarrow> error + grid" where
  "automaton_cell g width height birth survive y x new_grid =
     (case count_wall_neighbors g x y width height of
        Inl e \<Rightarrow> Inl e
      | Inr n \<Rightarrow>
          (case grid_get g y x of
             Inl e \<Rightarrow> Inl e
           | Inr c \<Rightarrow>
               if c = WALL then grid_set new_grid y x (if n \<ge> survive then WALL else FLOOR)
               else grid_set new_grid y x (if n \<ge> birth then WALL else FLOOR)))"

text \<open>
  One pass of the automaton loop: \<open>new_grid = grid.copy()\<close>, the two loops over all
  cells, and the value that \<open>grid = new_grid\<close> then assigns.
\<close>

definition automaton_step :: "grid \<Rightarrow> int \<Rightarrow> int \<Rightarrow> int \<Rightarrow> int \<Rightarrow> error + grid" where
  "automaton_step g width height birth survive =
     for_loop (py_range 0 height)
       (\<lambda>y. for_loop (py_range 0 width) (automaton_cell g width height birth survive y)) g"

section \<open>Corridor carving\<close>

text \<open>The distance of the search: \<open>abs(x1 - x2) + abs(y1 - y2)\<close>, cells being \<open>(y, x)\<close>.\<close>

definition manhattan :: "cell \<times> cell \<Rightarrow> int" where
  "manhattan pq = (case pq of ((y1, x1), (y2, x2)) \<Rightarrow> \<bar>x1 - x2\<bar> + \<bar>y1 - y2\<bar>)"

text \<open>
  The body of the inner search loop. The state is \<open>(min_dist, best_pair)\<close>;
  \<open>min_dist = None\<close> stands for the initial \<open>float('inf')\<close>, below which every
  distance lies.
\<close>

definition search_body ::
  "cell \<Rightarrow> cell \<Rightarrow> int option \<times> (cell \<times> cell) \<Rightarrow> int option \<times> (cell \<times> cell)" where
  "search_body p q s =
     (case s of (min_dist, best_pair) \<Rightarrow>
        let dist = manhattan (p, q) in
        if (case min_dist of None \<Rightarrow> True | Some m \<Rightarrow> dist < m)
        then (Some dist, (p, q))
        else (min_dist, best_pair))"

text \<open>
  The search of \<open>carve_corridor\<close>: \<open>region_a[0]\<close> and \<open>region_b[0]\<close> raise
  IndexError on an empty region; then the two nested loops run over all pairs.
\<close>

definition best_pair :: "region \<Rightarrow> region \<Rightarrow> error + (cell \<times> cell)" where
  "best_pair region_a region_b =
     (case region_a of
        [] \<Rightarrow> Inl IndexError
      | a0 # _ \<Rightarrow>
          (case region_b of
             [] \<Rightarrow> Inl IndexError
           | b0 # _ \<Rightarrow>
               Inr (snd (fold (\<lambda>p. fold (\<lambda>q. search_body p q) region_b) region_a
                            (None, (a0, b0))))))"

text \<open>
  \<open>carve_corridor(grid, region_a, region_b)\<close>; \<open>r\<close> is the value that
  \<open>random.random()\<close> returns.
\<close>

definition carve_corridor :: "grid \<Rightarrow> region \<Rightarrow> region \<Rightarrow> real \<Rightarrow> error + grid" where
  "carve_corridor g region_a region_b r =
     (case best_pair region_a region_b of
        Inl e \<Rightarrow> Inl e
      | Inr ((y1, x1), (y2, x2)) \<Rightarrow>
          if r < 0.5 then
            (case for_loop (py_range (min x1 x2) (max x1 x2 + 1))
                    (\<lambda>x grid. grid_set grid y1 x FLOOR) g of
               Inl e \<Rightarrow> Inl e
             | Inr g1 \<Rightarrow>
                 for_loop (py_range (min y1 y2) (max y1 y2 + 1))
                   (\<lambda>y grid. grid_set grid y x2 FLOOR) g1)
          else
            (case for_loop (py_range (min y1 y2) (max y1 y2 + 1))
                    (\<lambda>y grid. grid_set grid y x1 FLOOR) g of
               Inl e \<Rightarrow> Inl e
             | Inr g1 \<Rightarrow>
                 for_loop (py_range (min x1 x2) (max x1 x2 + 1))
                   (\<lambda>x grid. grid_set grid y2 x FLOOR) g1))"

text \<open>The search body as a step on pairs.\<close>

definition search_step ::
  "cell \<times> cell \<Rightarrow> int option \<times> (cell \<times> cell) \<Rightarrow> int option \<times> (cell \<times> cell)" where
  "search_step pq s = search_body (fst pq) (snd pq) s"

text \<open>
  The cells of the two segments that \<open>carve_corridor\<close> writes for the endpoints
  \<open>((y1, x1), (y2, x2))\<close>: for \<open>r < 0.5\<close> the row \<open>y1\<close> between the two columns
  and the column \<open>x2\<close> between the two rows, otherwise the column \<open>x1\<close> between the
  two rows and the row \<open>y2\<close> between the two columns.
\<close>

definition on_corridor :: "real \<Rightarrow> cell \<times> cell \<Rightarrow> int \<Rightarrow> int \<Rightarrow> bool" where
  "on_corridor r pq y x =
     (case pq of ((y1, x1), (y2, x2)) \<Rightarrow>
        if r < 0.5 then
          (y = y1 \<and> min x1 x2 \<le> x \<and> x \<le> max x1 x2) \<or>
          (x = x2 \<and> min y1 y2 \<le> y \<and> y \<le> max y1 y2)
        else
          (x = x1 \<and> min y1 y2 \<le> y \<and> y \<le> max y1 y2) \<or>
          (y = y2 \<and> min x1 x2 \<le> x \<and> x \<le> max x1 x2))"

text \<open>All cells of a region are positions of a grid of shape (height, width).\<close>

definition in_grid :: "region \<Rightarrow> int \<Rightarrow> int \<Rightarrow> bool" where
  "in_grid region width height \<longleftrightarrow>
     list_all (\<lambda>(y, x). (0 \<le> y \<and> y < height) \<and> (0 \<le> x \<and> x < width)) region"

section \<open>Region finding\<close>

text \<open>
  \<open>flood_fill_regions\<close> calls the library: \<open>label(grid == FLOOR, structure)\<close> with
  the full 3 by 3 structure numbers the 8-connected components of the FLOOR cells
  \<open>1..num_features\<close>, in the order in which a row-major scan first meets them, and
  \<open>np.argwhere(labeled == i)\<close> lists the positions \<open>(row, column)\<close> of component
  \<open>i\<close> in row-major order. The model computes the same lists: the FLOOR positions in
  row-major order, the component of a position by growing it along adjacency until
  nothing is added, and the scan that opens a new region at each position no earlier
  region holds.
\<close>

definition floor_cells :: "grid \<Rightarrow> cell list" where
  "floor_cells g =
     concat (map (\<lambda>y. concat (map (\<lambda>x. if g ! y ! x = FLOOR then [(int y, int x)] else [])
                                   [0..<length (g ! y)]))
                 [0..<length g])"

text \<open>Two positions touch when they differ by at most one row and one column.\<close>

definition adjacent8 :: "cell \<Rightarrow> cell \<Rightarrow> bool" where
  "adjacent8 a b \<longleftrightarrow> \<bar>fst a - fst b\<bar> \<le> 1 \<and> \<bar>snd a - snd b\<bar> \<le> 1"

definition grow :: "cell list \<Rightarrow> cell list \<Rightarrow> cell list" where
  "grow cells s = filter (\<lambda>c. \<exists>a\<in>set s. adjacent8 a c) cells"

definition flood_component :: "cell list \<Rightarrow> cell \<Rightarrow> region" where
  "flood_component cells c = (grow cells ^^ length cells) [c]"

fun label_scan :: "cell list \<Rightarrow> cell list \<Rightarrow> region list \<Rightarrow> region list" where
  "label_scan cells [] regions = regions"
| "label_scan cells (c # cs) regions =
     (if \<exists>r\<in>set regions. c \<in> set r then label_scan cells cs regions
      else label_scan cells cs (regions @ [flood_component cells c]))"

definition flood_fill_regions :: "grid \<Rightarrow> region list" where
  "flood_fill_regions g = label_scan (floor_cells g) (floor_cells g) []"

text \<open>
  \<open>max(regions, key=lambda r: len(r)) if regions else []\<close>: the first region of
  greatest length.
\<close>

fun largest_region :: "region list \<Rightarrow> region" where
  "largest_region [] = []"
| "largest_region (r # rs) =
     fold (\<lambda>region best. if length region > length best then region else best) rs r"

section \<open>The generator\<close>

text \<open>
  The parameter dictionary of \<open>generate_cave\<close>, one field per key (the fields carry
  a prefix, the keys do not).
\<close>

record params =
  p_width :: int
  p_height :: int
  p_fill_prob :: real
  p_birth :: int
  p_survive :: int
  p_ca_steps :: int
  p_min_region :: int
  p_smoothing_passes :: int

text \<open>
  \<open>np.zeros((height, width), dtype=int)\<close>: the allocation refuses a negative
  dimension with ValueError.
\<close>

definition np_zeros :: "int \<Rightarrow> int \<Rightarrow> error + grid" where
  "np_zeros height width =
     (if height < 0 \<or> width < 0 then Inl ValueError
      else Inr (replicate (nat height) (replicate (nat width) 0)))"

text \<open>
  Randomness: \<open>rng k\<close> is the value of the \<open>k\<close>-th call of \<open>random.random()\<close>;
  the loop states that draw carry the number of calls made so far.

  The body of the inner seeding loop.
\<close>

definition seed_cell ::
  "int \<Rightarrow> int \<Rightarrow> real \<Rightarrow> (nat \<Rightarrow> real) \<Rightarrow> int \<Rightarrow> int \<Rightarrow> grid \<times> nat \<Rightarrow> error + grid \<times> nat" where
  "seed_cell width height fill_p rng y x s =
     (case s of (g, k) \<Rightarrow>
        if is_edge x y width height then
          (case grid_set g y x WALL of Inl e \<Rightarrow> Inl e | Inr g' \<Rightarrow> Inr (g', k))
        else
          (case grid_set g y x (if rng k < fill_p then WALL else FLOOR) of
             Inl e \<Rightarrow> Inl e
           | Inr g' \<Rightarrow> Inr (g', k + 1)))"

definition seed_grid ::
  "int \<Rightarrow> int \<Rightarrow> real \<Rightarrow> (nat \<Rightarrow> real) \<Rightarrow> grid \<times> nat \<Rightarrow> error + grid \<times> nat" where
  "seed_grid width height fill_p rng s =
     for_loop (py_range 0 height)
       (\<lambda>y. for_loop (py_range 0 width) (seed_cell width height fill_p rng y)) s"

text \<open>The automaton loop: \<open>for _ in range(steps)\<close>.\<close>

definition automaton_loop :: "int \<Rightarrow> int \<Rightarrow> int \<Rightarrow> int \<Rightarrow> int \<Rightarrow> grid \<Rightarrow> error + grid" where
  "automaton_loop steps width height birth survive g =
     for_loop (py_range 0 steps) (\<lambda>_ grid. automaton_step grid width height birth survive) g"

text \<open>
  The body of the loop over the regions; \<open>np.array_equal(region, main)\<close> is equality
  of the two coordinate lists.
\<close>

definition connect_body ::
  "region \<Rightarrow> int \<Rightarrow> (nat \<Rightarrow> real) \<Rightarrow> region \<Rightarrow> grid \<times> nat \<Rightarrow> error + grid \<times> nat" where
  "connect_body main min_region rng region s =
     (case s of (g, k) \<Rightarrow>
        if int (length region) \<ge> min_region \<and> \<not> region = main then
          (case carve_corridor g main region (rng k) of
             Inl e \<Rightarrow> Inl e
           | Inr g' \<Rightarrow> Inr (g', k + 1))
        else Inr (g, k))"

definition connect_regions ::
  "region list \<Rightarrow> int \<Rightarrow> (nat \<Rightarrow> real) \<Rightarrow> grid \<times> nat \<Rightarrow> error + grid \<times> nat" where
  "connect_regions regions min_region rng s =
     (if regions \<noteq> [] then
        for_loop regions (connect_body (largest_region regions) min_region rng) s
      else Inr s)"

definition smoothing_loop :: "int \<Rightarrow> int \<Rightarrow> int \<Rightarrow> grid \<Rightarrow> error + grid" where
  "smoothing_loop smoothing_passes width height g =
     for_loop (py_range 0 smoothing_passes) (\<lambda>_ grid. micro_smooth grid width height) g"

text \<open>\<open>generate_cave(params)\<close>, with the random values it draws.\<close>

definition generate_cave :: "params \<Rightarrow> (nat \<Rightarrow> real) \<Rightarrow> error + grid" where
  "generate_cave ps rng =
     (case np_zeros (p_height ps) (p_width ps) of
        Inl e \<Rightarrow> Inl e
      | Inr g0 \<Rightarrow>
     (case seed_grid (p_width ps) (p_height ps) (p_fill_prob ps) rng (g0, 0) of
        Inl e \<Rightarrow> Inl e
      | Inr (g1, k1) \<Rightarrow>
     (case automaton_loop (p_ca_steps ps) (p_width ps) (p_height ps) (p_birth ps) (p_survive ps) g1 of
        Inl e \<Rightarrow> Inl e
      | Inr g2 \<Rightarrow>
     (case connect_regions (flood_fill_regions g2) (p_min_region ps) rng (g2, k1) of
        Inl e \<Rightarrow> Inl e
      | Inr (g3, k3) \<Rightarrow>
          smoothing_loop (p_smoothing_passes ps) (p_width ps) (p_height ps) g3))))"

section \<open>The states a run passes through\<close>

text \<open>The states after each completed iteration of a loop, in order.\<close>

fun for_loop_states :: "'a list \<Rightarrow> ('a \<Rightarrow> 's \<Rightarrow> error + 's) \<Rightarrow> 's \<Rightarrow> 's list" where
  "for_loop_states [] body s = []"
| "for_loop_states (v # vs) body s =
     (case body v s of Inl e \<Rightarrow> [] | Inr s' \<Rightarrow> s' # for_loop_states vs body s')"

text \<open>
  The grids of a run of \<open>generate_cave\<close>: the seeded grid, the grid after each
  automaton step, the grid after each iteration of the loop over the regions, and the
  grid after each micro-smoothing pass.
\<close>

definition cave_states :: "params \<Rightarrow> (nat \<Rightarrow> real) \<Rightarrow> grid list" where
  "cave_states ps rng =
     (case np_zeros (p_height ps) (p_width ps) of
        Inl e \<Rightarrow> []
      | Inr g0 \<Rightarrow>
     (case seed_grid (p_width ps) (p_height ps) (p_fill_prob ps) rng (g0, 0) of
        Inl e \<Rightarrow> []
      | Inr (g1, k1) \<Rightarrow>
        let automaton_states =
              for_loop_states (py_range 0 (p_ca_steps ps))
                (\<lambda>_ grid. automaton_step grid (p_width ps) (p_height ps) (p_birth ps) (p_survive ps))
                g1;
            g2 = last (g1 # automaton_states);
            regions = flood_fill_regions g2;
            carve_states =
              (if regions \<noteq> [] then
                 for_loop_states regions
                   (connect_body (largest_region regions) (p_min_region ps) rng) (g2, k1)
               else []);
            g3 = fst (last ((g2, k1) # carve_states));
            smoothing_states =
              for_loop_states (py_range 0 (p_smoothing_passes ps))
                (\<lambda>_ grid. micro_smooth grid (p_width ps) (p_height ps)) g3
        in g1 # automaton_states @ map fst carve_states @ smoothing_states))"

text \<open>Every cell on row 0, row height-1, column 0 or column width-1 is WALL.\<close>

definition border_is_wall :: "grid \<Rightarrow> int \<Rightarrow> int \<Rightarrow> bool" where
  "border_is_wall g width height \<longleftrightarrow>
     (\<forall>y\<in>set (py_range 0 height). \<forall>x\<in>set (py_range 0 width).
        is_edge x y width height \<longrightarrow> g ! nat y ! nat x = WALL)"

section \<open>Connectedness of FLOOR cells\<close>

text \<open>
  Two cells of a set \<open>F\<close> are linked when they touch; a cell is connected to another
  through \<open>F\<close> when a chain of links leads from one to the other, which is the
  reflexive transitive closure of \<open>floor_adj F\<close>.
\<close>

definition floor_adj :: "cell set \<Rightarrow> (cell \<times> cell) set" where
  "floor_adj F = {(a, b). a \<in> F \<and> b \<in> F \<and> adjacent8 a b}"

section \<open>The invocations of the corridor carver\<close>

text \<open>
  One invocation \<open>grid = carve_corridor(grid, main, region)\<close> on a loop state: it draws
  the next random value.
\<close>

definition carve_body ::
  "region \<Rightarrow> (nat \<Rightarrow> real) \<Rightarrow> region \<Rightarrow> grid \<times> nat \<Rightarrow> error + grid \<times> nat" where
  "carve_body main rng region s =
     (case s of (g, k) \<Rightarrow>
        (case carve_corridor g main region (rng k) of
           Inl e \<Rightarrow> Inl e
         | Inr g' \<Rightarrow> Inr (g', k + 1)))"

text \<open>
  The regions of at least \<open>min_region\<close> cells other than the main region, in the order
  of the list.
\<close>

definition carved_regions :: "region list \<Rightarrow> int \<Rightarrow> region list" where
  "carved_regions regions min_region =
     filter (\<lambda>region. int (length region) \<ge> min_region \<and> region \<noteq> largest_region regions)
       regions"

section \<open>Basic facts\<close>

lemma py_range_m1_2: "py_range (-1) 2 = [-1, 0, 1]"
  by (simp add: py_range_def upto.simps)

lemma has_shape_row:
  assumes "has_shape g width height" and "0 \<le> y" and "y < height"
  shows "int (length (g ! nat y)) = width"
proof -
  from assms have "nat y < length g"
    by (simp add: has_shape_def) linarith
  with assms(1) show ?thesis
    by (simp add: has_shape_def list_all_length)
qed

lemma grid_get_in_range:
  assumes "has_shape g width height"
    and "0 \<le> x" and "x < width" and "0 \<le> y" and "y < height"
  shows "grid_get g y x = Inr (g ! nat y ! nat x)"
proof -
  have h: "int (length g) = height"
    using assms(1) by (simp add: has_shape_def)
  have w: "int (length (g ! nat y)) = width"
    by (rule has_shape_row [OF assms(1,4,5)])
  have "np_index (length g) y = Some (nat y)"
    using h assms(4,5) by (simp add: np_index_def)
  moreover have "np_index (length (g ! nat y)) x = Some (nat x)"
    using w assms(2,3) by (simp add: np_index_def)
  ultimately show ?thesis
    by (simp add: grid_get_def)
qed

lemma cwn_body_eq:
  assumes "has_shape g width height"
  shows "cwn_body g x y width height dx dy count =
     Inr (if dx = 0 \<and> dy = 0 then count
          else if counts_as_wall g width height (x + dx) (y + dy) then count + 1 else count)"
proof (cases "(0 \<le> x + dx \<and> x + dx < width) \<and> (0 \<le> y + dy \<and> y + dy < height)")
  case True
  then have "grid_get g (y + dy) (x + dx) = Inr (g ! nat (y + dy) ! nat (x + dx))"
    using assms by (simp add: grid_get_in_range)
  with True show ?thesis
    by (simp add: cwn_body_def counts_as_wall_def Let_def)
next
  case False
  then show ?thesis
    by (auto simp add: cwn_body_def counts_as_wall_def Let_def)
qed

lemma count_wall_neighbors_eq:
  assumes "has_shape g width height"
  shows "count_wall_neighbors g x y width height = Inr (wall_neighbors g x y width height)"
  by (simp add: count_wall_neighbors_def py_range_m1_2 cwn_body_eq [OF assms]
      wall_neighbors_def surrounding_def diff_conv_add_uminus del: add_uminus_conv_diff)

lemma set_surrounding:
  "set (surrounding x y) = {(nx, ny). (nx, ny) \<noteq> (x, y) \<and> \<bar>nx - x\<bar> \<le> 1 \<and> \<bar>ny - y\<bar> \<le> 1}"
proof (rule set_eqI)
  fix p :: "int \<times> int"
  obtain nx ny where p: "p = (nx, ny)" by (cases p)
  have "(nx, ny) \<in> set (surrounding x y) \<longleftrightarrow>
      (nx = x - 1 \<or> nx = x \<or> nx = x + 1) \<and> (ny = y - 1 \<or> ny = y \<or> ny = y + 1) \<and> \<not> (nx = x \<and> ny = y)"
    unfolding surrounding_def by simp linarith
  also have "\<dots> \<longleftrightarrow> (nx, ny) \<noteq> (x, y) \<and> \<bar>nx - x\<bar> \<le> 1 \<and> \<bar>ny - y\<bar> \<le> 1"
    by simp linarith
  finally show "p \<in> set (surrounding x y) \<longleftrightarrow>
      p \<in> {(nx, ny). (nx, ny) \<noteq> (x, y) \<and> \<bar>nx - x\<bar> \<le> 1 \<and> \<bar>ny - y\<bar> \<le> 1}"
    by (simp add: p)
qed

lemma distinct_surrounding: "distinct (surrounding x y)"
  by (simp add: surrounding_def)

lemma wall_neighbors_card:
  "wall_neighbors g x y width height =
     int (card {(nx, ny). ((nx, ny) \<noteq> (x, y) \<and> \<bar>nx - x\<bar> \<le> 1 \<and> \<bar>ny - y\<bar> \<le> 1) \<and>
        counts_as_wall g width height nx ny})"
proof -
  let ?P = "\<lambda>(nx, ny). counts_as_wall g width height nx ny"
  have "{(nx, ny). ((nx, ny) \<noteq> (x, y) \<and> \<bar>nx - x\<bar> \<le> 1 \<and> \<bar>ny - y\<bar> \<le> 1) \<and>
        counts_as_wall g width height nx ny} = {p \<in> set (surrounding x y). ?P p}"
    unfolding set_surrounding by blast
  also have "\<dots> = set (filter ?P (surrounding x y))"
    by simp
  finally have "card {(nx, ny). ((nx, ny) \<noteq> (x, y) \<and> \<bar>nx - x\<bar> \<le> 1 \<and> \<bar>ny - y\<bar> \<le> 1) \<and>
        counts_as_wall g width height nx ny} = length (filter ?P (surrounding x y))"
    using distinct_card [of "filter ?P (surrounding x y)"] distinct_surrounding [of x y]
    by simp
  then show ?thesis
    unfolding wall_neighbors_def by simp
qed

section \<open>C8: the neighbor count\<close>

text \<open>
  Claim C8. For a grid of shape (height, width) and an in-bounds position \<open>(x, y)\<close>,
  \<open>count_wall_neighbors\<close> returns the number of the 8 surrounding positions that
  lie outside the grid or hold a WALL cell: an out-of-bounds position counts exactly as
  a WALL cell does.
\<close>

theorem count_wall_neighbors_counts_out_of_bounds_as_wall:
  assumes "has_shape g width height"
    and "0 \<le> x" and "x < width" and "0 \<le> y" and "y < height"
  shows "count_wall_neighbors g x y width height =
     Inr (int (card {(nx, ny).
        ((nx, ny) \<noteq> (x, y) \<and> \<bar>nx - x\<bar> \<le> 1 \<and> \<bar>ny - y\<bar> \<le> 1) \<and>
        (\<not> ((0 \<le> nx \<and> nx < width) \<and> (0 \<le> ny \<and> ny < height)) \<or>
         g ! nat ny ! nat nx = WALL)}))"
  using count_wall_neighbors_eq [OF assms(1), of x y] wall_neighbors_card [of g x y width height]
  unfolding counts_as_wall_def by simp

lemma corner_count: "count_wall_neighbors [[1, 1, 1], [1, 0, 1], [1, 1, 1]] 0 0 3 3 = Inr 7"
  by (simp add: count_wall_neighbors_def py_range_m1_2 cwn_body_def grid_get_def np_index_def
      WALL_def)

lemma shape_3x3: "has_shape [[1, 1, 1], [1, 0, 1], [1, 1, 1]] 3 3"
  by (simp add: has_shape_def)

theorem count_wall_neighbors_corner_witness:
  "has_shape [[1, 1, 1], [1, 0, 1], [1, 1, 1]] 3 3 \<and>
   count_wall_neighbors [[1, 1, 1], [1, 0, 1], [1, 1, 1]] 0 0 3 3 = Inr 7 \<and>
   int (card {(nx, ny).
        ((nx, ny) \<noteq> (0, 0) \<and> \<bar>nx - 0\<bar> \<le> 1 \<and> \<bar>ny - 0\<bar> \<le> 1) \<and>
        (\<not> ((0 \<le> nx \<and> nx < 3) \<and> (0 \<le> ny \<and> ny < 3)) \<or>
         [[1, 1, 1], [1, 0, 1], [1, 1, 1]] ! nat ny ! nat nx = WALL)}) = 7"
  using count_wall_neighbors_counts_out_of_bounds_as_wall
    [of "[[1, 1, 1], [1, 0, 1], [1, 1, 1]]" 3 3 0 0] shape_3x3 corner_count
  by simp

section \<open>Loops and grid updates\<close>

lemma for_loop_invariant_aux:
  assumes "\<And>pre v s. I pre s \<Longrightarrow> v \<in> set vs \<Longrightarrow> \<exists>s'. body v s = Inr s' \<and> I (pre @ [v]) s'"
    and "I pre s"
  shows "\<exists>s'. for_loop vs body s = Inr s' \<and> I (pre @ vs) s'"
  using assms
proof (induction vs arbitrary: pre s)
  case Nil
  then show ?case by simp
next
  case (Cons v vs)
  from Cons.prems obtain s1 where s1: "body v s = Inr s1" "I (pre @ [v]) s1"
    by (meson list.set_intros(1))
  have "\<exists>s'. for_loop vs body s1 = Inr s' \<and> I ((pre @ [v]) @ vs) s'"
  proof (rule Cons.IH)
    show "I (pre @ [v]) s1" by (rule s1)
  next
    fix pre' v' s'
    assume "I pre' s'" and "v' \<in> set vs"
    then show "\<exists>s''. body v' s' = Inr s'' \<and> I (pre' @ [v']) s''"
      using Cons.prems(1) by simp
  qed
  with s1 show ?case by simp
qed

lemma for_loop_invariant:
  assumes "I [] s"
    and "\<And>pre v s. I pre s \<Longrightarrow> v \<in> set vs \<Longrightarrow> \<exists>s'. body v s = Inr s' \<and> I (pre @ [v]) s'"
  shows "\<exists>s'. for_loop vs body s = Inr s' \<and> I vs s'"
  using for_loop_invariant_aux [of I vs body "[]" s] assms by simp

lemma has_shape_length: "has_shape g width height \<Longrightarrow> int (length g) = height"
  by (simp add: has_shape_def)

lemma grid_set_in_range:
  assumes "has_shape g width height"
    and "0 \<le> x" and "x < width" and "0 \<le> y" and "y < height"
  shows "grid_set g y x v = Inr (g[nat y := (g ! nat y)[nat x := v]])"
proof -
  have h: "int (length g) = height"
    using assms(1) by (simp add: has_shape_def)
  have w: "int (length (g ! nat y)) = width"
    by (rule has_shape_row [OF assms(1,4,5)])
  have "np_index (length g) y = Some (nat y)"
    using h assms(4,5) by (simp add: np_index_def)
  moreover have "np_index (length (g ! nat y)) x = Some (nat x)"
    using w assms(2,3) by (simp add: np_index_def)
  ultimately show ?thesis
    by (simp add: grid_set_def)
qed

lemma has_shape_update:
  assumes "has_shape g width height"
  shows "has_shape (g[r := (g ! r)[c := v]]) width height"
proof -
  have "int (length (g[r := (g ! r)[c := v]] ! i)) = width" if "i < length g" for i
  proof (cases "i = r")
    case True
    with that assms show ?thesis
      by (simp add: has_shape_def list_all_length)
  next
    case False
    with that assms show ?thesis
      by (simp add: has_shape_def list_all_length)
  qed
  then show ?thesis
    using assms by (simp add: has_shape_def list_all_length)
qed

lemma nth_grid_update:
  assumes "has_shape g width height"
    and "0 \<le> x" and "x < width" and "0 \<le> y" and "y < height"
    and "0 \<le> x'" and "x' < width" and "0 \<le> y'" and "y' < height"
  shows "g[nat y := (g ! nat y)[nat x := v]] ! nat y' ! nat x' =
     (if y' = y \<and> x' = x then v else g ! nat y' ! nat x')"
proof -
  have h: "int (length g) = height"
    using assms(1) by (simp add: has_shape_def)
  have w: "int (length (g ! nat y)) = width"
    by (rule has_shape_row [OF assms(1,4,5)])
  have ly: "nat y < length g" and ly': "nat y' < length g"
    using h assms by linarith+
  have lx: "nat x < length (g ! nat y)" and lx': "nat x' < length (g ! nat y)"
    using w assms by linarith+
  have e1: "nat y' = nat y \<longleftrightarrow> y' = y" and e2: "nat x' = nat x \<longleftrightarrow> x' = x"
    using assms by linarith+
  show ?thesis
    using ly ly' lx lx' e1 e2 by (auto simp add: nth_list_update)
qed

lemma grid_eqI:
  assumes "has_shape a width height" and "has_shape b width height"
    and "\<And>x y. 0 \<le> x \<Longrightarrow> x < width \<Longrightarrow> 0 \<le> y \<Longrightarrow> y < height \<Longrightarrow>
      a ! nat y ! nat x = b ! nat y ! nat x"
  shows "a = b"
proof (rule nth_equalityI)
  show len: "length a = length b"
    using assms(1,2) by (simp add: has_shape_def)
  fix i assume i: "i < length a"
  then have ih: "0 \<le> int i" "int i < height"
    using assms(1) by (auto simp add: has_shape_def)
  have wa: "int (length (a ! i)) = width"
    using has_shape_row [OF assms(1) ih] by simp
  have wb: "int (length (b ! i)) = width"
    using has_shape_row [OF assms(2) ih] by simp
  show "a ! i = b ! i"
  proof (rule nth_equalityI)
    show "length (a ! i) = length (b ! i)"
      using wa wb by simp
    fix j assume "j < length (a ! i)"
    then have "0 \<le> int j" "int j < width"
      using wa by auto
    from assms(3) [OF this ih] show "a ! i ! j = b ! i ! j"
      by simp
  qed
qed

text \<open>
  Two nested loops over rows \<open>ys\<close> and columns \<open>xs\<close> whose body writes the value
  \<open>v y x\<close> to cell \<open>(y, x)\<close> where \<open>P y x\<close> holds and writes nothing elsewhere.
\<close>

lemma grid_loops:
  assumes shape: "has_shape g0 width height"
    and rows: "\<And>y. y \<in> set ys \<Longrightarrow> 0 \<le> y \<and> y < height"
    and cols: "\<And>x. x \<in> set xs \<Longrightarrow> 0 \<le> x \<and> x < width"
    and body: "\<And>y x ng. has_shape ng width height \<Longrightarrow> y \<in> set ys \<Longrightarrow> x \<in> set xs \<Longrightarrow>
      body y x ng = (if P y x then grid_set ng y x (v y x) else Inr ng)"
  shows "\<exists>ng. for_loop ys (\<lambda>y. for_loop xs (body y)) g0 = Inr ng \<and> has_shape ng width height \<and>
     (\<forall>y x. 0 \<le> x \<and> x < width \<and> 0 \<le> y \<and> y < height \<longrightarrow>
        ng ! nat y ! nat x =
          (if (y \<in> set ys \<and> x \<in> set xs) \<and> P y x then v y x else g0 ! nat y ! nat x))"
proof -
  define J where "J pre prex ng \<longleftrightarrow> has_shape ng width height \<and>
     (\<forall>y x. 0 \<le> x \<and> x < width \<and> 0 \<le> y \<and> y < height \<longrightarrow>
        ng ! nat y ! nat x =
          (if ((y, x) \<in> pre \<or> (y, x) \<in> prex) \<and> P y x then v y x else g0 ! nat y ! nat x))"
    for pre prex :: "(int \<times> int) set" and ng
  define I where "I pre ng \<longleftrightarrow> J (set pre \<times> set xs) {} ng" for pre ng
  have inner: "\<exists>ng'. for_loop xs (body y) ng = Inr ng' \<and> I (pre @ [y]) ng'"
    if "I pre ng" and "y \<in> set ys" for pre y ng
  proof -
    define I' where "I' prex ng \<longleftrightarrow> J (set pre \<times> set xs) ({y} \<times> set prex) ng" for prex ng
    have start: "I' [] ng"
      using that(1) by (simp add: I'_def I_def)
    have step: "\<exists>s'. body y x s = Inr s' \<and> I' (prex @ [x]) s'"
      if "I' prex s" and "x \<in> set xs" for prex x s
    proof -
      have sh: "has_shape s width height"
        using that(1) by (simp add: I'_def J_def)
      have yb: "0 \<le> y" "y < height"
        using rows [OF \<open>y \<in> set ys\<close>] by simp_all
      have xb: "0 \<le> x" "x < width"
        using cols [OF \<open>x \<in> set xs\<close>] by simp_all
      show ?thesis
      proof (cases "P y x")
        case True
        have b: "body y x s = Inr (s[nat y := (s ! nat y)[nat x := v y x]])"
          using body [OF sh \<open>y \<in> set ys\<close> \<open>x \<in> set xs\<close>] True
            grid_set_in_range [OF sh xb yb] by simp
        have "I' (prex @ [x]) (s[nat y := (s ! nat y)[nat x := v y x]])"
          unfolding I'_def J_def
        proof (intro conjI allI impI)
          show "has_shape (s[nat y := (s ! nat y)[nat x := v y x]]) width height"
            by (rule has_shape_update [OF sh])
        next
          fix y' x'
          assume bnd: "0 \<le> x' \<and> x' < width \<and> 0 \<le> y' \<and> y' < height"
          then have old: "s ! nat y' ! nat x' =
            (if ((y', x') \<in> set pre \<times> set xs \<or> (y', x') \<in> {y} \<times> set prex) \<and> P y' x'
             then v y' x' else g0 ! nat y' ! nat x')"
            using that(1) by (simp add: I'_def J_def)
          have upd: "s[nat y := (s ! nat y)[nat x := v y x]] ! nat y' ! nat x' =
            (if y' = y \<and> x' = x then v y x else s ! nat y' ! nat x')"
            using nth_grid_update [OF sh xb yb, of x' y'] bnd by simp
          show "s[nat y := (s ! nat y)[nat x := v y x]] ! nat y' ! nat x' =
            (if ((y', x') \<in> set pre \<times> set xs \<or> (y', x') \<in> {y} \<times> set (prex @ [x])) \<and> P y' x'
             then v y' x' else g0 ! nat y' ! nat x')"
            unfolding upd old using True by auto
        qed
        with b show ?thesis by simp
      next
        case False
        have b: "body y x s = Inr s"
          using body [OF sh \<open>y \<in> set ys\<close> \<open>x \<in> set xs\<close>] False by simp
        have "I' (prex @ [x]) s"
          unfolding I'_def J_def
        proof (intro conjI allI impI)
          show "has_shape s width height" by (rule sh)
        next
          fix y' x'
          assume bnd: "0 \<le> x' \<and> x' < width \<and> 0 \<le> y' \<and> y' < height"
          then have old: "s ! nat y' ! nat x' =
            (if ((y', x') \<in> set pre \<times> set xs \<or> (y', x') \<in> {y} \<times> set prex) \<and> P y' x'
             then v y' x' else g0 ! nat y' ! nat x')"
            using that(1) by (simp add: I'_def J_def)
          show "s ! nat y' ! nat x' =
            (if ((y', x') \<in> set pre \<times> set xs \<or> (y', x') \<in> {y} \<times> set (prex @ [x])) \<and> P y' x'
             then v y' x' else g0 ! nat y' ! nat x')"
            unfolding old using False by auto
        qed
        with b show ?thesis by simp
      qed
    qed
    have "\<exists>s'. for_loop xs (body y) ng = Inr s' \<and> I' xs s'"
    proof (rule for_loop_invariant [where I = I'])
      show "I' [] ng" by (rule start)
    next
      fix prex x s
      assume "I' prex s" and "x \<in> set xs"
      then show "\<exists>s'. body y x s = Inr s' \<and> I' (prex @ [x]) s'"
        by (rule step)
    qed
    then obtain ng' where r: "for_loop xs (body y) ng = Inr ng'" and i: "I' xs ng'"
      by blast
    have "I (pre @ [y]) ng'"
      using i unfolding I_def I'_def J_def
      by (auto split: if_splits)
    with r show ?thesis by blast
  qed
  have start: "I [] g0"
    using shape by (simp add: I_def J_def)
  have "\<exists>s'. for_loop ys (\<lambda>y. for_loop xs (body y)) g0 = Inr s' \<and> I ys s'"
  proof (rule for_loop_invariant [where I = I])
    show "I [] g0" by (rule start)
  next
    fix pre y s
    assume "I pre s" and "y \<in> set ys"
    then show "\<exists>s'. for_loop xs (body y) s = Inr s' \<and> I (pre @ [y]) s'"
      by (rule inner)
  qed
  then obtain ng where r: "for_loop ys (\<lambda>y. for_loop xs (body y)) g0 = Inr ng" and i: "I ys ng"
    by blast
  from i have "has_shape ng width height \<and>
     (\<forall>y x. 0 \<le> x \<and> x < width \<and> 0 \<le> y \<and> y < height \<longrightarrow>
        ng ! nat y ! nat x =
          (if (y \<in> set ys \<and> x \<in> set xs) \<and> P y x then v y x else g0 ! nat y ! nat x))"
    unfolding I_def J_def by simp
  with r show ?thesis by blast
qed

section \<open>Micro-smoothing, cell by cell\<close>

lemma set_py_range: "set (py_range a b) = {a..<b}"
  by (auto simp add: py_range_def)

lemma micro_smooth_cell_eq:
  assumes "has_shape g width height"
  shows "micro_smooth_cell g width height y x ng =
     (if wall_neighbors g x y width height > 5 \<or> wall_neighbors g x y width height < 3
      then grid_set ng y x (if wall_neighbors g x y width height > 5 then WALL else FLOOR)
      else Inr ng)"
  by (simp add: micro_smooth_cell_def count_wall_neighbors_eq [OF assms])

lemma micro_smooth_cells:
  assumes "has_shape g width height"
  shows "\<exists>ng. micro_smooth g width height = Inr ng \<and> has_shape ng width height \<and>
     (\<forall>y x. 0 \<le> x \<and> x < width \<and> 0 \<le> y \<and> y < height \<longrightarrow>
        ng ! nat y ! nat x =
          (if (1 \<le> y \<and> y < height - 1) \<and> (1 \<le> x \<and> x < width - 1) then
             (if wall_neighbors g x y width height > 5 then WALL
              else if wall_neighbors g x y width height < 3 then FLOOR
              else g ! nat y ! nat x)
           else g ! nat y ! nat x))"
proof -
  let ?P = "\<lambda>y x. wall_neighbors g x y width height > 5 \<or> wall_neighbors g x y width height < 3"
  let ?v = "\<lambda>y x. if wall_neighbors g x y width height > 5 then WALL else FLOOR"
  have "\<exists>ng. for_loop (py_range 1 (height - 1))
        (\<lambda>y. for_loop (py_range 1 (width - 1)) (micro_smooth_cell g width height y)) g = Inr ng \<and>
      has_shape ng width height \<and>
      (\<forall>y x. 0 \<le> x \<and> x < width \<and> 0 \<le> y \<and> y < height \<longrightarrow>
        ng ! nat y ! nat x =
          (if (y \<in> set (py_range 1 (height - 1)) \<and> x \<in> set (py_range 1 (width - 1))) \<and> ?P y x
           then ?v y x else g ! nat y ! nat x))"
  proof (rule grid_loops [where P = ?P and v = ?v])
    show "has_shape g width height" by (rule assms)
  next
    fix y assume "y \<in> set (py_range 1 (height - 1))"
    then show "0 \<le> y \<and> y < height" by (simp add: set_py_range)
  next
    fix x assume "x \<in> set (py_range 1 (width - 1))"
    then show "0 \<le> x \<and> x < width" by (simp add: set_py_range)
  next
    fix y x ng
    show "micro_smooth_cell g width height y x ng =
      (if ?P y x then grid_set ng y x (?v y x) else Inr ng)"
      by (rule micro_smooth_cell_eq [OF assms])
  qed
  then obtain ng where r: "micro_smooth g width height = Inr ng"
    and sh: "has_shape ng width height"
    and c: "\<And>y x. 0 \<le> x \<and> x < width \<and> 0 \<le> y \<and> y < height \<Longrightarrow>
        ng ! nat y ! nat x =
          (if (y \<in> set (py_range 1 (height - 1)) \<and> x \<in> set (py_range 1 (width - 1))) \<and> ?P y x
           then ?v y x else g ! nat y ! nat x)"
    unfolding micro_smooth_def by blast
  have "ng ! nat y ! nat x =
          (if (1 \<le> y \<and> y < height - 1) \<and> (1 \<le> x \<and> x < width - 1) then
             (if wall_neighbors g x y width height > 5 then WALL
              else if wall_neighbors g x y width height < 3 then FLOOR
              else g ! nat y ! nat x)
           else g ! nat y ! nat x)"
    if "0 \<le> x \<and> x < width \<and> 0 \<le> y \<and> y < height" for y x
    unfolding c [OF that] by (simp add: set_py_range)
  with r sh show ?thesis by blast
qed

section \<open>C6 and C7: the micro-smoothing pass\<close>

text \<open>
  Claim C6. One micro-smoothing pass over a grid of shape (height, width) sets each
  interior cell (row in 1..height-2, column in 1..width-2) to WALL when its neighbor
  count \<open>n\<close> in the input grid is above 5, to FLOOR when \<open>n\<close> is below 3, and leaves
  it as it was otherwise; border cells keep their input values.
\<close>

theorem micro_smooth_interior_rule:
  assumes "has_shape g width height"
  shows "\<exists>ng. micro_smooth g width height = Inr ng \<and> has_shape ng width height \<and>
     (\<forall>y x. 0 \<le> x \<and> x < width \<and> 0 \<le> y \<and> y < height \<longrightarrow>
        (\<exists>n. count_wall_neighbors g x y width height = Inr n \<and>
           ng ! nat y ! nat x =
             (if (1 \<le> y \<and> y \<le> height - 2) \<and> (1 \<le> x \<and> x \<le> width - 2) then
                (if n > 5 then WALL else if n < 3 then FLOOR else g ! nat y ! nat x)
              else g ! nat y ! nat x)))"
proof -
  from micro_smooth_cells [OF assms] obtain ng where
    r: "micro_smooth g width height = Inr ng" and sh: "has_shape ng width height" and
    c: "\<And>y x. 0 \<le> x \<and> x < width \<and> 0 \<le> y \<and> y < height \<Longrightarrow>
        ng ! nat y ! nat x =
          (if (1 \<le> y \<and> y < height - 1) \<and> (1 \<le> x \<and> x < width - 1) then
             (if wall_neighbors g x y width height > 5 then WALL
              else if wall_neighbors g x y width height < 3 then FLOOR
              else g ! nat y ! nat x)
           else g ! nat y ! nat x)"
    by blast
  have "\<exists>n. count_wall_neighbors g x y width height = Inr n \<and>
           ng ! nat y ! nat x =
             (if (1 \<le> y \<and> y \<le> height - 2) \<and> (1 \<le> x \<and> x \<le> width - 2) then
                (if n > 5 then WALL else if n < 3 then FLOOR else g ! nat y ! nat x)
              else g ! nat y ! nat x)"
    if "0 \<le> x \<and> x < width \<and> 0 \<le> y \<and> y < height" for y x
  proof -
    have e: "(y < height - 1) = (y \<le> height - 2)" "(x < width - 1) = (x \<le> width - 2)"
      by linarith+
    show ?thesis
      unfolding count_wall_neighbors_eq [OF assms] c [OF that] e by simp
  qed
  with r sh show ?thesis by blast
qed

lemma micro_smooth_example:
  "micro_smooth [[1, 1, 1], [1, 0, 1], [1, 1, 1]] 3 3 = Inr [[1, 1, 1], [1, 1, 1], [1, 1, 1]]"
  by (simp add: micro_smooth_def micro_smooth_cell_def count_wall_neighbors_def py_range_m1_2
      cwn_body_def grid_get_def grid_set_def np_index_def WALL_def FLOOR_def py_range_def
      upto.simps)

theorem micro_smooth_interior_rule_witness:
  "has_shape [[1, 1, 1], [1, 0, 1], [1, 1, 1]] 3 3 \<and>
   micro_smooth [[1, 1, 1], [1, 0, 1], [1, 1, 1]] 3 3 = Inr [[1, 1, 1], [1, 1, 1], [1, 1, 1]] \<and>
   count_wall_neighbors [[1, 1, 1], [1, 0, 1], [1, 1, 1]] 1 1 3 3 = Inr 8 \<and>
   (\<exists>ng. micro_smooth [[1, 1, 1], [1, 0, 1], [1, 1, 1]] 3 3 = Inr ng \<and> ng ! nat 1 ! nat 1 = WALL)"
proof -
  let ?G = "[[1, 1, 1], [1, 0, 1], [1, 1, 1 :: int]]"
  have sh: "has_shape ?G 3 3"
    by (simp add: has_shape_def)
  have n: "count_wall_neighbors ?G 1 1 3 3 = Inr 8"
    by (simp add: count_wall_neighbors_def py_range_m1_2 cwn_body_def grid_get_def np_index_def
        WALL_def)
  from micro_smooth_interior_rule [OF sh] obtain ng where
    r: "micro_smooth ?G 3 3 = Inr ng" and
    c: "\<forall>y x. 0 \<le> x \<and> x < 3 \<and> 0 \<le> y \<and> y < 3 \<longrightarrow>
        (\<exists>n. count_wall_neighbors ?G x y 3 3 = Inr n \<and>
           ng ! nat y ! nat x =
             (if (1 \<le> y \<and> y \<le> 3 - 2) \<and> (1 \<le> x \<and> x \<le> 3 - 2) then
                (if n > 5 then WALL else if n < 3 then FLOOR else ?G ! nat y ! nat x)
              else ?G ! nat y ! nat x))"
    by blast
  from c [rule_format, of 1 1] n have "ng ! nat 1 ! nat 1 = WALL"
    by simp
  with r sh n micro_smooth_example show ?thesis
    by blast
qed

text \<open>
  Claim C7. On a grid in which every interior cell has a neighbor count in [3, 5],
  \<open>micro_smooth\<close> returns a grid equal to its input.
\<close>

theorem micro_smooth_identity_on_settled_grid:
  assumes "has_shape g width height"
    and "\<And>y x. 1 \<le> y \<and> y \<le> height - 2 \<Longrightarrow> 1 \<le> x \<and> x \<le> width - 2 \<Longrightarrow>
      \<exists>n. count_wall_neighbors g x y width height = Inr n \<and> 3 \<le> n \<and> n \<le> 5"
  shows "micro_smooth g width height = Inr g"
proof -
  from micro_smooth_cells [OF assms(1)] obtain ng where
    r: "micro_smooth g width height = Inr ng" and sh: "has_shape ng width height" and
    c: "\<And>y x. 0 \<le> x \<and> x < width \<and> 0 \<le> y \<and> y < height \<Longrightarrow>
        ng ! nat y ! nat x =
          (if (1 \<le> y \<and> y < height - 1) \<and> (1 \<le> x \<and> x < width - 1) then
             (if wall_neighbors g x y width height > 5 then WALL
              else if wall_neighbors g x y width height < 3 then FLOOR
              else g ! nat y ! nat x)
           else g ! nat y ! nat x)"
    by blast
  have "ng = g"
  proof (rule grid_eqI [OF sh assms(1)])
    fix x y
    assume b: "0 \<le> x" "x < width" "0 \<le> y" "y < height"
    show "ng ! nat y ! nat x = g ! nat y ! nat x"
    proof (cases "(1 \<le> y \<and> y < height - 1) \<and> (1 \<le> x \<and> x < width - 1)")
      case True
      then have "1 \<le> y \<and> y \<le> height - 2" and "1 \<le> x \<and> x \<le> width - 2"
        by linarith+
      from assms(2) [OF this] have "3 \<le> wall_neighbors g x y width height"
        and "wall_neighbors g x y width height \<le> 5"
        by (simp_all add: count_wall_neighbors_eq [OF assms(1)])
      then show ?thesis
        using c [of x y] b by simp
    next
      case False
      note eq = c [OF conjI [OF b(1) conjI [OF b(2) conjI [OF b(3) b(4)]]]]
      show ?thesis
        by (simp only: eq if_not_P [OF False])
    qed
  qed
  with r show ?thesis by simp
qed

theorem micro_smooth_identity_witness:
  "has_shape [[1, 1, 1], [0, 0, 0], [0, 0, 0]] 3 3 \<and>
   count_wall_neighbors [[1, 1, 1], [0, 0, 0], [0, 0, 0]] 1 1 3 3 = Inr 3 \<and>
   micro_smooth [[1, 1, 1], [0, 0, 0], [0, 0, 0]] 3 3 = Inr [[1, 1, 1], [0, 0, 0], [0, 0, 0]]"
proof -
  let ?G = "[[1, 1, 1], [0, 0, 0], [0, 0, 0 :: int]]"
  have sh: "has_shape ?G 3 3"
    by (simp add: has_shape_def)
  have n: "count_wall_neighbors ?G 1 1 3 3 = Inr 3"
    by (simp add: count_wall_neighbors_def py_range_m1_2 cwn_body_def grid_get_def np_index_def
        WALL_def)
  have "micro_smooth ?G 3 3 = Inr ?G"
  proof (rule micro_smooth_identity_on_settled_grid [OF sh])
    fix y x :: int
    assume "1 \<le> y \<and> y \<le> 3 - 2" and "1 \<le> x \<and> x \<le> 3 - 2"
    then have "y = 1" and "x = 1" by linarith+
    with n show "\<exists>n. count_wall_neighbors ?G x y 3 3 = Inr n \<and> 3 \<le> n \<and> n \<le> 5"
      by simp
  qed
  with sh n show ?thesis by blast
qed

section \<open>C1: the automaton step\<close>

lemma automaton_cell_eq:
  assumes "has_shape g width height"
    and "0 \<le> x" and "x < width" and "0 \<le> y" and "y < height"
  shows "automaton_cell g width height birth survive y x ng =
     grid_set ng y x
       (if g ! nat y ! nat x = WALL
        then (if wall_neighbors g x y width height \<ge> survive then WALL else FLOOR)
        else (if wall_neighbors g x y width height \<ge> birth then WALL else FLOOR))"
  by (simp add: automaton_cell_def count_wall_neighbors_eq [OF assms(1)]
      grid_get_in_range [OF assms])

lemma automaton_step_cells:
  assumes "has_shape g width height"
  shows "\<exists>ng. automaton_step g width height birth survive = Inr ng \<and>
     has_shape ng width height \<and>
     (\<forall>y x. 0 \<le> x \<and> x < width \<and> 0 \<le> y \<and> y < height \<longrightarrow>
        ng ! nat y ! nat x =
          (if g ! nat y ! nat x = WALL
           then (if wall_neighbors g x y width height \<ge> survive then WALL else FLOOR)
           else (if wall_neighbors g x y width height \<ge> birth then WALL else FLOOR)))"
proof -
  let ?v = "\<lambda>y x. if g ! nat y ! nat x = WALL
        then (if wall_neighbors g x y width height \<ge> survive then WALL else FLOOR)
        else (if wall_neighbors g x y width height \<ge> birth then WALL else FLOOR)"
  have "\<exists>ng. for_loop (py_range 0 height)
        (\<lambda>y. for_loop (py_range 0 width) (automaton_cell g width height birth survive y)) g =
        Inr ng \<and>
      has_shape ng width height \<and>
      (\<forall>y x. 0 \<le> x \<and> x < width \<and> 0 \<le> y \<and> y < height \<longrightarrow>
        ng ! nat y ! nat x =
          (if (y \<in> set (py_range 0 height) \<and> x \<in> set (py_range 0 width)) \<and> True
           then ?v y x else g ! nat y ! nat x))"
  proof (rule grid_loops [where P = "\<lambda>y x. True" and v = ?v])
    show "has_shape g width height" by (rule assms)
  next
    fix y assume "y \<in> set (py_range 0 height)"
    then show "0 \<le> y \<and> y < height" by (simp add: set_py_range)
  next
    fix x assume "x \<in> set (py_range 0 width)"
    then show "0 \<le> x \<and> x < width" by (simp add: set_py_range)
  next
    fix y x ng
    assume "y \<in> set (py_range 0 height)" and "x \<in> set (py_range 0 width)"
    then have "0 \<le> x" "x < width" "0 \<le> y" "y < height"
      by (simp_all add: set_py_range)
    from automaton_cell_eq [OF assms this]
    show "automaton_cell g width height birth survive y x ng =
      (if True then grid_set ng y x (?v y x) else Inr ng)"
      by simp
  qed
  then obtain ng where r: "automaton_step g width height birth survive = Inr ng"
    and sh: "has_shape ng width height"
    and c: "\<And>y x. 0 \<le> x \<and> x < width \<and> 0 \<le> y \<and> y < height \<Longrightarrow>
        ng ! nat y ! nat x =
          (if (y \<in> set (py_range 0 height) \<and> x \<in> set (py_range 0 width)) \<and> True
           then ?v y x else g ! nat y ! nat x)"
    unfolding automaton_step_def by blast
  have "ng ! nat y ! nat x = ?v y x"
    if "0 \<le> x \<and> x < width \<and> 0 \<le> y \<and> y < height" for y x
    unfolding c [OF that] using that by (simp add: set_py_range)
  with r sh show ?thesis by blast
qed

text \<open>
  Claim C1. One automaton step of \<open>generate_cave\<close> computes the next grid wholly from
  the current one: with \<open>n\<close> the neighbor count of a cell in the grid before the
  step, a WALL cell stays WALL exactly when \<open>n \<ge> survive\<close> and becomes FLOOR
  otherwise, a FLOOR cell becomes WALL exactly when \<open>n \<ge> birth\<close> and stays FLOOR
  otherwise; the grid that replaces the current one is the result of the full pass.
\<close>

theorem automaton_step_reads_previous_grid:
  assumes "has_shape g width height"
  shows "\<exists>ng. automaton_step g width height birth survive = Inr ng \<and>
     has_shape ng width height \<and>
     (\<forall>y x. 0 \<le> x \<and> x < width \<and> 0 \<le> y \<and> y < height \<longrightarrow>
        (\<exists>n. count_wall_neighbors g x y width height = Inr n \<and>
           ng ! nat y ! nat x =
             (if g ! nat y ! nat x = WALL
              then (if n \<ge> survive then WALL else FLOOR)
              else (if n \<ge> birth then WALL else FLOOR))))"
  using automaton_step_cells [OF assms, of birth survive]
  unfolding count_wall_neighbors_eq [OF assms] by simp

lemma automaton_step_example:
  "automaton_step [[1, 1, 1], [1, 0, 1], [1, 1, 1]] 3 3 5 8 =
     Inr [[0, 0, 0], [0, 1, 0], [0, 0, 0]]"
  by (simp add: automaton_step_def automaton_cell_def count_wall_neighbors_def py_range_m1_2
      cwn_body_def grid_get_def grid_set_def np_index_def WALL_def FLOOR_def py_range_def
      upto.simps)

theorem automaton_step_witness:
  "has_shape [[1, 1, 1], [1, 0, 1], [1, 1, 1]] 3 3 \<and>
   automaton_step [[1, 1, 1], [1, 0, 1], [1, 1, 1]] 3 3 5 8 =
     Inr [[0, 0, 0], [0, 1, 0], [0, 0, 0]] \<and>
   count_wall_neighbors [[1, 1, 1], [1, 0, 1], [1, 1, 1]] 0 0 3 3 = Inr 7 \<and>
   (\<exists>ng. automaton_step [[1, 1, 1], [1, 0, 1], [1, 1, 1]] 3 3 5 8 = Inr ng \<and>
      ng ! nat 0 ! nat 0 = FLOOR)"
proof -
  let ?G = "[[1, 1, 1], [1, 0, 1], [1, 1, 1 :: int]]"
  have sh: "has_shape ?G 3 3"
    by (simp add: has_shape_def)
  have n: "count_wall_neighbors ?G 0 0 3 3 = Inr 7"
    by (simp add: count_wall_neighbors_def py_range_m1_2 cwn_body_def grid_get_def np_index_def
        WALL_def)
  from automaton_step_reads_previous_grid [OF sh, of 5 8] obtain ng where
    r: "automaton_step ?G 3 3 5 8 = Inr ng" and
    c: "\<forall>y x. 0 \<le> x \<and> x < 3 \<and> 0 \<le> y \<and> y < 3 \<longrightarrow>
        (\<exists>n. count_wall_neighbors ?G x y 3 3 = Inr n \<and>
           ng ! nat y ! nat x =
             (if ?G ! nat y ! nat x = WALL
              then (if n \<ge> 8 then WALL else FLOOR)
              else (if n \<ge> 5 then WALL else FLOOR)))"
    by blast
  from c [rule_format, of 0 0] n have "ng ! nat 0 ! nat 0 = FLOOR"
    by (simp add: WALL_def)
  with r sh n automaton_step_example show ?thesis
    by blast
qed

section \<open>The search of the corridor carver\<close>

text \<open>The scan order of the two nested loops: all pairs, outer loop first.\<close>

lemma fold_nested_product:
  "fold (\<lambda>p. fold (\<lambda>q. f p q) ys) xs s = fold (\<lambda>(p, q). f p q) (List.product xs ys) s"
proof (induction xs arbitrary: s)
  case Nil
  then show ?case by simp
next
  case (Cons x xs)
  have "fold (\<lambda>(p, q). f p q) (map (Pair x) ys) s = fold (\<lambda>q. f x q) ys s"
    by (simp add: fold_map comp_def)
  with Cons show ?case by simp
qed

lemma search_scan_first_minimum:
  assumes "ps \<noteq> []"
  shows "\<exists>i<length ps. fold search_step ps (None, b0) = (Some (manhattan (ps ! i)), ps ! i) \<and>
     (\<forall>j<length ps. manhattan (ps ! i) \<le> manhattan (ps ! j)) \<and>
     (\<forall>j<i. manhattan (ps ! i) < manhattan (ps ! j))"
  using assms
proof (induction ps rule: rev_nonempty_induct)
  case (single x)
  show ?case
    by (simp add: search_step_def search_body_def)
next
  case (snoc x xs)
  then obtain i where i: "i < length xs"
    and r: "fold search_step xs (None, b0) = (Some (manhattan (xs ! i)), xs ! i)"
    and le: "\<And>j. j < length xs \<Longrightarrow> manhattan (xs ! i) \<le> manhattan (xs ! j)"
    and lt: "\<And>j. j < i \<Longrightarrow> manhattan (xs ! i) < manhattan (xs ! j)"
    by blast
  show ?case
  proof (cases "manhattan x < manhattan (xs ! i)")
    case True
    have "fold search_step (xs @ [x]) (None, b0) = (Some (manhattan x), x)"
      using r True by (simp add: search_step_def search_body_def)
    moreover have "manhattan x \<le> manhattan ((xs @ [x]) ! j)" if "j < length (xs @ [x])" for j
    proof (cases "j < length xs")
      case True
      with le [of j] \<open>manhattan x < manhattan (xs ! i)\<close> show ?thesis
        by (simp add: nth_append)
    next
      case False
      with that have "j = length xs" by simp
      then show ?thesis by simp
    qed
    moreover have "manhattan x < manhattan ((xs @ [x]) ! j)" if "j < length xs" for j
      using le [OF that] True that by (simp add: nth_append)
    ultimately show ?thesis
      by (intro exI [of _ "length xs"]) simp
  next
    case False
    have "fold search_step (xs @ [x]) (None, b0) = (Some (manhattan (xs ! i)), xs ! i)"
      using r False by (simp add: search_step_def search_body_def)
    moreover have "manhattan (xs ! i) \<le> manhattan ((xs @ [x]) ! j)"
      if "j < length (xs @ [x])" for j
    proof (cases "j < length xs")
      case True
      with le [of j] show ?thesis
        by (simp add: nth_append)
    next
      case False
      with that have "j = length xs" by simp
      with \<open>\<not> manhattan x < manhattan (xs ! i)\<close> show ?thesis by simp
    qed
    moreover have "manhattan (xs ! i) < manhattan ((xs @ [x]) ! j)" if "j < i" for j
      using lt [OF that] that i by (simp add: nth_append)
    ultimately show ?thesis
      using i by (intro exI [of _ i]) (simp add: nth_append)
  qed
qed

lemma best_pair_fold:
  assumes "region_a \<noteq> []" and "region_b \<noteq> []"
  shows "best_pair region_a region_b =
     Inr (snd (fold search_step (List.product region_a region_b)
                 (None, (hd region_a, hd region_b))))"
proof -
  have "(\<lambda>(p, q). search_body p q) = search_step"
    by (simp add: fun_eq_iff search_step_def)
  with fold_nested_product [of search_body region_b region_a] assms show ?thesis
    by (cases region_a; cases region_b) (simp_all add: best_pair_def)
qed

lemma best_pair_first_minimum:
  assumes "region_a \<noteq> []" and "region_b \<noteq> []"
  shows "\<exists>i<length (List.product region_a region_b).
     best_pair region_a region_b = Inr (List.product region_a region_b ! i) \<and>
     (\<forall>j<length (List.product region_a region_b).
        manhattan (List.product region_a region_b ! i) \<le>
        manhattan (List.product region_a region_b ! j)) \<and>
     (\<forall>j<i. manhattan (List.product region_a region_b ! i) <
        manhattan (List.product region_a region_b ! j))"
proof -
  have "List.product region_a region_b \<noteq> []"
    using assms by (cases region_a; cases region_b) simp_all
  from search_scan_first_minimum [OF this, of "(hd region_a, hd region_b)"]
  show ?thesis
    unfolding best_pair_fold [OF assms] by fastforce
qed

section \<open>The two segments of a corridor\<close>

lemma for_loop_single: "for_loop [v] body s = body v s"
  by (cases "body v s") simp_all

lemma row_segment_loop:
  assumes sh: "has_shape g width height"
    and y: "0 \<le> y \<and> y < height"
    and xs: "\<And>x. x \<in> set xs \<Longrightarrow> 0 \<le> x \<and> x < width"
  shows "\<exists>ng. for_loop xs (\<lambda>x grid. grid_set grid y x v) g = Inr ng \<and>
     has_shape ng width height \<and>
     (\<forall>y' x'. 0 \<le> x' \<and> x' < width \<and> 0 \<le> y' \<and> y' < height \<longrightarrow>
        ng ! nat y' ! nat x' = (if y' = y \<and> x' \<in> set xs then v else g ! nat y' ! nat x'))"
proof -
  have "\<exists>ng. for_loop [y] (\<lambda>y. for_loop xs (\<lambda>x grid. grid_set grid y x v)) g = Inr ng \<and>
     has_shape ng width height \<and>
     (\<forall>y' x'. 0 \<le> x' \<and> x' < width \<and> 0 \<le> y' \<and> y' < height \<longrightarrow>
        ng ! nat y' ! nat x' =
          (if (y' \<in> set [y] \<and> x' \<in> set xs) \<and> True then v else g ! nat y' ! nat x'))"
  proof (rule grid_loops [where P = "\<lambda>y x. True" and v = "\<lambda>y x. v"
        and body = "\<lambda>y x grid. grid_set grid y x v"])
    show "has_shape g width height" by (rule sh)
  next
    fix y' assume "y' \<in> set [y]"
    with y show "0 \<le> y' \<and> y' < height" by simp
  next
    fix x assume "x \<in> set xs"
    then show "0 \<le> x \<and> x < width" by (rule xs)
  next
    fix y x ng
    show "grid_set ng y x v = (if True then grid_set ng y x v else Inr ng)" by simp
  qed
  then show ?thesis
    by (simp only: for_loop_single) simp
qed

lemma column_segment_loop:
  assumes sh: "has_shape g width height"
    and x: "0 \<le> x \<and> x < width"
    and ys: "\<And>y. y \<in> set ys \<Longrightarrow> 0 \<le> y \<and> y < height"
  shows "\<exists>ng. for_loop ys (\<lambda>y grid. grid_set grid y x v) g = Inr ng \<and>
     has_shape ng width height \<and>
     (\<forall>y' x'. 0 \<le> x' \<and> x' < width \<and> 0 \<le> y' \<and> y' < height \<longrightarrow>
        ng ! nat y' ! nat x' = (if x' = x \<and> y' \<in> set ys then v else g ! nat y' ! nat x'))"
proof -
  have "\<exists>ng. for_loop ys (\<lambda>y. for_loop [x] (\<lambda>x grid. grid_set grid y x v)) g = Inr ng \<and>
     has_shape ng width height \<and>
     (\<forall>y' x'. 0 \<le> x' \<and> x' < width \<and> 0 \<le> y' \<and> y' < height \<longrightarrow>
        ng ! nat y' ! nat x' =
          (if (y' \<in> set ys \<and> x' \<in> set [x]) \<and> True then v else g ! nat y' ! nat x'))"
  proof (rule grid_loops [where P = "\<lambda>y x. True" and v = "\<lambda>y x. v"
        and body = "\<lambda>y x grid. grid_set grid y x v"])
    show "has_shape g width height" by (rule sh)
  next
    fix y assume "y \<in> set ys"
    then show "0 \<le> y \<and> y < height" by (rule ys)
  next
    fix x' assume "x' \<in> set [x]"
    with x show "0 \<le> x' \<and> x' < width" by simp
  next
    fix y x ng
    show "grid_set ng y x v = (if True then grid_set ng y x v else Inr ng)" by simp
  qed
  moreover have "(\<lambda>y. for_loop [x] (\<lambda>x grid. grid_set grid y x v)) = (\<lambda>y grid. grid_set grid y x v)"
    by (intro ext) (simp only: for_loop_single)
  ultimately show ?thesis
    by (simp add: conj_commute)
qed

lemma in_grid_cell:
  assumes "in_grid region width height" and "(y, x) \<in> set region"
  shows "0 \<le> y \<and> y < height" and "0 \<le> x \<and> x < width"
  using assms by (auto simp add: in_grid_def list_all_iff)

lemma best_pair_member:
  assumes "region_a \<noteq> []" and "region_b \<noteq> []"
  shows "\<exists>p q. best_pair region_a region_b = Inr (p, q) \<and> p \<in> set region_a \<and> q \<in> set region_b"
proof -
  from best_pair_first_minimum [OF assms] obtain i where
    i: "i < length (List.product region_a region_b)" and
    r: "best_pair region_a region_b = Inr (List.product region_a region_b ! i)"
    by blast
  from i have "List.product region_a region_b ! i \<in> set (List.product region_a region_b)"
    by (rule nth_mem)
  then have "List.product region_a region_b ! i \<in> set region_a \<times> set region_b"
    by simp
  with r show ?thesis
    by (cases "List.product region_a region_b ! i") auto
qed

lemma carve_corridor_cells:
  assumes sh: "has_shape g width height"
    and ne: "region_a \<noteq> []" "region_b \<noteq> []"
    and ia: "in_grid region_a width height" and ib: "in_grid region_b width height"
  shows "\<exists>p q ng. best_pair region_a region_b = Inr (p, q) \<and>
     p \<in> set region_a \<and> q \<in> set region_b \<and>
     carve_corridor g region_a region_b r = Inr ng \<and> has_shape ng width height \<and>
     (\<forall>y x. 0 \<le> x \<and> x < width \<and> 0 \<le> y \<and> y < height \<longrightarrow>
        ng ! nat y ! nat x = (if on_corridor r (p, q) y x then FLOOR else g ! nat y ! nat x))"
proof -
  from best_pair_member [OF ne] obtain p q where
    bp: "best_pair region_a region_b = Inr (p, q)" and p: "p \<in> set region_a"
    and q: "q \<in> set region_b"
    by blast
  obtain y1 x1 y2 x2 where pq: "p = (y1, x1)" "q = (y2, x2)"
    by (cases p; cases q) blast
  have b1: "0 \<le> y1 \<and> y1 < height" "0 \<le> x1 \<and> x1 < width"
    using in_grid_cell [OF ia, of y1 x1] p pq by simp_all
  have b2: "0 \<le> y2 \<and> y2 < height" "0 \<le> x2 \<and> x2 < width"
    using in_grid_cell [OF ib, of y2 x2] q pq by simp_all
  let ?xs = "py_range (min x1 x2) (max x1 x2 + 1)"
  let ?ys = "py_range (min y1 y2) (max y1 y2 + 1)"
  have xs: "0 \<le> x \<and> x < width" if "x \<in> set ?xs" for x
    using that b1 b2 by (auto simp add: set_py_range)
  have ys: "0 \<le> y \<and> y < height" if "y \<in> set ?ys" for y
    using that b1 b2 by (auto simp add: set_py_range)
  have mx: "x \<in> set ?xs \<longleftrightarrow> min x1 x2 \<le> x \<and> x \<le> max x1 x2" for x
    by (auto simp add: set_py_range)
  have my: "y \<in> set ?ys \<longleftrightarrow> min y1 y2 \<le> y \<and> y \<le> max y1 y2" for y
    by (auto simp add: set_py_range)
  have "\<exists>ng. carve_corridor g region_a region_b r = Inr ng \<and> has_shape ng width height \<and>
     (\<forall>y x. 0 \<le> x \<and> x < width \<and> 0 \<le> y \<and> y < height \<longrightarrow>
        ng ! nat y ! nat x = (if on_corridor r (p, q) y x then FLOOR else g ! nat y ! nat x))"
  proof (cases "r < 0.5")
    case True
    from row_segment_loop [OF sh b1(1) xs, of ?xs FLOOR] obtain g1 where
      l1: "for_loop ?xs (\<lambda>x grid. grid_set grid y1 x FLOOR) g = Inr g1" and
      sh1: "has_shape g1 width height" and
      c1: "\<And>y' x'. 0 \<le> x' \<and> x' < width \<and> 0 \<le> y' \<and> y' < height \<Longrightarrow>
        g1 ! nat y' ! nat x' = (if y' = y1 \<and> x' \<in> set ?xs then FLOOR else g ! nat y' ! nat x')"
      by blast
    from column_segment_loop [OF sh1 b2(2) ys, of ?ys FLOOR] obtain g2 where
      l2: "for_loop ?ys (\<lambda>y grid. grid_set grid y x2 FLOOR) g1 = Inr g2" and
      sh2: "has_shape g2 width height" and
      c2: "\<And>y' x'. 0 \<le> x' \<and> x' < width \<and> 0 \<le> y' \<and> y' < height \<Longrightarrow>
        g2 ! nat y' ! nat x' = (if x' = x2 \<and> y' \<in> set ?ys then FLOOR else g1 ! nat y' ! nat x')"
      by blast
    have r: "carve_corridor g region_a region_b r = Inr g2"
      using True bp pq l1 l2 by (simp add: carve_corridor_def)
    have "g2 ! nat y ! nat x = (if on_corridor r (p, q) y x then FLOOR else g ! nat y ! nat x)"
      if "0 \<le> x \<and> x < width \<and> 0 \<le> y \<and> y < height" for y x
      unfolding c2 [OF that] c1 [OF that] mx my using True
      by (auto simp add: on_corridor_def pq)
    with r sh2 show ?thesis by blast
  next
    case False
    from column_segment_loop [OF sh b1(2) ys, of ?ys FLOOR] obtain g1 where
      l1: "for_loop ?ys (\<lambda>y grid. grid_set grid y x1 FLOOR) g = Inr g1" and
      sh1: "has_shape g1 width height" and
      c1: "\<And>y' x'. 0 \<le> x' \<and> x' < width \<and> 0 \<le> y' \<and> y' < height \<Longrightarrow>
        g1 ! nat y' ! nat x' = (if x' = x1 \<and> y' \<in> set ?ys then FLOOR else g ! nat y' ! nat x')"
      by blast
    from row_segment_loop [OF sh1 b2(1) xs, of ?xs FLOOR] obtain g2 where
      l2: "for_loop ?xs (\<lambda>x grid. grid_set grid y2 x FLOOR) g1 = Inr g2" and
      sh2: "has_shape g2 width height" and
      c2: "\<And>y' x'. 0 \<le> x' \<and> x' < width \<and> 0 \<le> y' \<and> y' < height \<Longrightarrow>
        g2 ! nat y' ! nat x' = (if y' = y2 \<and> x' \<in> set ?xs then FLOOR else g1 ! nat y' ! nat x')"
      by blast
    have r: "carve_corridor g region_a region_b r = Inr g2"
      using False bp pq l1 l2 by (simp add: carve_corridor_def)
    have "g2 ! nat y ! nat x = (if on_corridor r (p, q) y x then FLOOR else g ! nat y ! nat x)"
      if "0 \<le> x \<and> x < width \<and> 0 \<le> y \<and> y < height" for y x
      unfolding c2 [OF that] c1 [OF that] mx my using False
      by (auto simp add: on_corridor_def pq)
    with r sh2 show ?thesis by blast
  qed
  with bp p q show ?thesis by blast
qed

section \<open>C3: the endpoints of a corridor\<close>

text \<open>
  Claim C3. For non-empty regions, the endpoints \<open>carve_corridor\<close> chooses are a
  pair \<open>(p, q)\<close> with \<open>p\<close> in the first region and \<open>q\<close> in the second whose
  Manhattan distance is minimal over all such pairs, and among the pairs of minimal
  distance it is the first of the scan of all pairs (outer loop over the first region,
  inner loop over the second, which is the order of \<open>List.product\<close>).
\<close>

theorem carve_corridor_endpoints_first_minimum:
  assumes "region_a \<noteq> []" and "region_b \<noteq> []"
  shows "\<exists>i<length (List.product region_a region_b).
     best_pair region_a region_b = Inr (List.product region_a region_b ! i) \<and>
     fst (List.product region_a region_b ! i) \<in> set region_a \<and>
     snd (List.product region_a region_b ! i) \<in> set region_b \<and>
     (\<forall>p\<in>set region_a. \<forall>q\<in>set region_b.
        manhattan (List.product region_a region_b ! i) \<le> manhattan (p, q)) \<and>
     (\<forall>j<i. manhattan (List.product region_a region_b ! i) <
        manhattan (List.product region_a region_b ! j))"
proof -
  let ?ps = "List.product region_a region_b"
  from best_pair_first_minimum [OF assms] obtain i where
    i: "i < length ?ps" and
    r: "best_pair region_a region_b = Inr (?ps ! i)" and
    le: "\<And>j. j < length ?ps \<Longrightarrow> manhattan (?ps ! i) \<le> manhattan (?ps ! j)" and
    lt: "\<forall>j<i. manhattan (?ps ! i) < manhattan (?ps ! j)"
    by blast
  from i have "?ps ! i \<in> set ?ps"
    by (rule nth_mem)
  then have m: "fst (?ps ! i) \<in> set region_a" "snd (?ps ! i) \<in> set region_b"
    by (auto simp add: mem_Times_iff)
  have "manhattan (?ps ! i) \<le> manhattan (p, q)"
    if "p \<in> set region_a" and "q \<in> set region_b" for p q
  proof -
    from that have "(p, q) \<in> set ?ps" by simp
    then obtain j where "j < length ?ps" and "?ps ! j = (p, q)"
      by (meson in_set_conv_nth)
    with le [of j] show ?thesis by simp
  qed
  with i r m lt show ?thesis by blast
qed

lemma best_pair_example:
  "best_pair [(1, 1), (1, 2)] [(1, 4), (3, 2)] = Inr ((1, 2), (1, 4))"
  by (simp add: best_pair_def search_body_def manhattan_def)

theorem carve_corridor_endpoints_witness:
  "([(1, 1), (1, 2)] :: region) \<noteq> [] \<and> ([(1, 4), (3, 2)] :: region) \<noteq> [] \<and>
   best_pair [(1, 1), (1, 2)] [(1, 4), (3, 2)] = Inr ((1, 2), (1, 4)) \<and>
   (\<exists>i<4. List.product ([(1, 1), (1, 2)] :: region) ([(1, 4), (3, 2)] :: region) ! i =
        ((1, 2), (1, 4)) \<and>
      (\<forall>j<i. 2 < manhattan
        (List.product ([(1, 1), (1, 2)] :: region) ([(1, 4), (3, 2)] :: region) ! j)))"
proof -
  let ?A = "[(1, 1), (1, 2)] :: region"
  let ?B = "[(1, 4), (3, 2)] :: region"
  have a: "?A \<noteq> []" and b: "?B \<noteq> []" by simp_all
  from carve_corridor_endpoints_first_minimum [OF a b] obtain i where
    i: "i < length (List.product ?A ?B)" and
    r: "best_pair ?A ?B = Inr (List.product ?A ?B ! i)" and
    lt: "\<forall>j<i. manhattan (List.product ?A ?B ! i) < manhattan (List.product ?A ?B ! j)"
    by blast
  from r have e: "List.product ?A ?B ! i = ((1, 2), (1, 4))"
    unfolding best_pair_example by (rule sum.inject [THEN iffD1, symmetric])
  have m2: "manhattan ((1, 2), (1, 4)) = 2"
    by (simp add: manhattan_def)
  from lt have all: "\<forall>j<i. 2 < manhattan (List.product ?A ?B ! j)"
    unfolding e m2 .
  from i have i4: "i < 4" by simp
  have ex: "\<exists>i<4. List.product ?A ?B ! i = ((1, 2), (1, 4)) \<and>
      (\<forall>j<i. 2 < manhattan (List.product ?A ?B ! j))"
  proof (intro exI conjI)
    show "i < 4" by (rule i4)
    show "List.product ?A ?B ! i = ((1, 2), (1, 4))" by (rule e)
    show "\<forall>j<i. 2 < manhattan (List.product ?A ?B ! j)" by (rule all)
  qed
  show ?thesis
    by (intro conjI) (rule a b best_pair_example ex)+
qed

section \<open>C10: what carving changes\<close>

text \<open>
  Claim C10. For a grid and two non-empty regions of its positions,
  \<open>carve_corridor\<close> changes only the cells on its two segments (the row span
  between the columns of the chosen endpoints and the column span between their rows),
  each of which becomes FLOOR; every other cell is returned as it was, so no FLOOR cell
  becomes WALL.
\<close>

theorem carve_corridor_changes_only_its_segments:
  assumes "has_shape g width height"
    and "region_a \<noteq> []" and "region_b \<noteq> []"
    and "in_grid region_a width height" and "in_grid region_b width height"
  shows "\<exists>p q ng. best_pair region_a region_b = Inr (p, q) \<and>
     carve_corridor g region_a region_b r = Inr ng \<and> has_shape ng width height \<and>
     (\<forall>y x. 0 \<le> x \<and> x < width \<and> 0 \<le> y \<and> y < height \<longrightarrow>
        (on_corridor r (p, q) y x \<longrightarrow> ng ! nat y ! nat x = FLOOR) \<and>
        (\<not> on_corridor r (p, q) y x \<longrightarrow> ng ! nat y ! nat x = g ! nat y ! nat x) \<and>
        (g ! nat y ! nat x = FLOOR \<longrightarrow> ng ! nat y ! nat x = FLOOR))"
proof -
  from carve_corridor_cells [OF assms, of r] obtain p q ng where
    bp: "best_pair region_a region_b = Inr (p, q)" and
    r: "carve_corridor g region_a region_b r = Inr ng" and
    sh: "has_shape ng width height" and
    c: "\<And>y x. 0 \<le> x \<and> x < width \<and> 0 \<le> y \<and> y < height \<Longrightarrow>
        ng ! nat y ! nat x = (if on_corridor r (p, q) y x then FLOOR else g ! nat y ! nat x)"
    by blast
  have "(on_corridor r (p, q) y x \<longrightarrow> ng ! nat y ! nat x = FLOOR) \<and>
        (\<not> on_corridor r (p, q) y x \<longrightarrow> ng ! nat y ! nat x = g ! nat y ! nat x) \<and>
        (g ! nat y ! nat x = FLOOR \<longrightarrow> ng ! nat y ! nat x = FLOOR)"
    if "0 \<le> x \<and> x < width \<and> 0 \<le> y \<and> y < height" for y x
    unfolding c [OF that] by simp
  with bp r sh show ?thesis by blast
qed

lemma carve_corridor_example:
  "carve_corridor [[1, 1, 1, 1], [1, 0, 1, 1], [1, 1, 1, 0], [1, 1, 1, 1]] [(1, 1)] [(2, 3)] (1 / 4) =
     Inr [[1, 1, 1, 1], [1, 0, 0, 0], [1, 1, 1, 0], [1, 1, 1, 1]]"
  by (simp add: carve_corridor_def best_pair_def search_body_def manhattan_def py_range_def
      upto.simps grid_set_def np_index_def FLOOR_def)

theorem carve_corridor_changes_witness:
  "has_shape [[1, 1, 1, 1], [1, 0, 1, 1], [1, 1, 1, 0], [1, 1, 1, 1]] 4 4 \<and>
   ([(1, 1)] :: region) \<noteq> [] \<and> ([(2, 3)] :: region) \<noteq> [] \<and>
   in_grid [(1, 1)] 4 4 \<and> in_grid [(2, 3)] 4 4 \<and>
   carve_corridor [[1, 1, 1, 1], [1, 0, 1, 1], [1, 1, 1, 0], [1, 1, 1, 1]] [(1, 1)] [(2, 3)] (1 / 4) =
     Inr [[1, 1, 1, 1], [1, 0, 0, 0], [1, 1, 1, 0], [1, 1, 1, 1]] \<and>
   (\<exists>p q ng. best_pair [(1, 1)] [(2, 3)] = Inr (p, q) \<and>
      carve_corridor [[1, 1, 1, 1], [1, 0, 1, 1], [1, 1, 1, 0], [1, 1, 1, 1]] [(1, 1)] [(2, 3)] (1 / 4) =
        Inr ng \<and>
      has_shape ng 4 4)"
proof -
  let ?G = "[[1, 1, 1, 1], [1, 0, 1, 1], [1, 1, 1, 0], [1, 1, 1, 1 :: int]]"
  have sh: "has_shape ?G 4 4"
    by (simp add: has_shape_def)
  have ne: "([(1, 1)] :: region) \<noteq> []" "([(2, 3)] :: region) \<noteq> []"
    by simp_all
  have ig: "in_grid [(1, 1)] 4 4" "in_grid [(2, 3)] 4 4"
    by (simp_all add: in_grid_def)
  from carve_corridor_changes_only_its_segments [OF sh ne ig, of "1 / 4"] obtain p q ng where
    f: "best_pair [(1, 1)] [(2, 3)] = Inr (p, q)"
      "carve_corridor ?G [(1, 1)] [(2, 3)] (1 / 4) = Inr ng" "has_shape ng 4 4"
    by blast
  have ex: "\<exists>p q ng. best_pair [(1, 1)] [(2, 3)] = Inr (p, q) \<and>
      carve_corridor ?G [(1, 1)] [(2, 3)] (1 / 4) = Inr ng \<and> has_shape ng 4 4"
    by (intro exI conjI) (rule f)+
  show ?thesis
    by (intro conjI) (rule sh ne ig carve_corridor_example ex)+
qed

section \<open>States of loops\<close>

lemma border_is_wall_iff:
  "border_is_wall g width height \<longleftrightarrow>
     (\<forall>y x. 0 \<le> x \<and> x < width \<and> 0 \<le> y \<and> y < height \<longrightarrow>
        is_edge x y width height \<longrightarrow> g ! nat y ! nat x = WALL)"
  by (auto simp add: border_is_wall_def set_py_range)

lemma for_loop_last_state:
  "for_loop vs body s = Inr s' \<Longrightarrow> s' = last (s # for_loop_states vs body s)"
proof (induction vs arbitrary: s)
  case Nil
  then show ?case by simp
next
  case (Cons v vs)
  then show ?case
    by (cases "body v s") (auto split: if_splits)
qed

lemma for_loop_states_invariant:
  assumes "I s"
    and "\<And>v s. I s \<Longrightarrow> v \<in> set vs \<Longrightarrow> \<exists>s'. body v s = Inr s' \<and> I s'"
  shows "(\<exists>s'. for_loop vs body s = Inr s' \<and> I s') \<and> (\<forall>t\<in>set (for_loop_states vs body s). I t)"
  using assms
proof (induction vs arbitrary: s)
  case Nil
  then show ?case by simp
next
  case (Cons v vs)
  from Cons.prems obtain s1 where s1: "body v s = Inr s1" "I s1"
    by (meson list.set_intros(1))
  have "(\<exists>s'. for_loop vs body s1 = Inr s' \<and> I s') \<and> (\<forall>t\<in>set (for_loop_states vs body s1). I t)"
  proof (rule Cons.IH)
    show "I s1" by (rule s1)
  next
    fix v' s'
    assume "I s'" and "v' \<in> set vs"
    then show "\<exists>s''. body v' s' = Inr s'' \<and> I s''"
      using Cons.prems(2) by simp
  qed
  with s1 show ?case by simp
qed

section \<open>Seeding\<close>

lemma np_zeros_shape:
  assumes "0 \<le> height" and "0 \<le> width"
  shows "\<exists>g0. np_zeros height width = Inr g0 \<and> has_shape g0 width height"
  using assms by (simp add: np_zeros_def has_shape_def list_all_length)

lemma np_zeros_negative:
  assumes "height < 0 \<or> width < 0"
  shows "np_zeros height width = Inl ValueError"
  using assms by (simp add: np_zeros_def)

lemma seed_cell_result:
  assumes sh: "has_shape g width height"
    and b: "0 \<le> x" "x < width" "0 \<le> y" "y < height"
  shows "\<exists>v k'. seed_cell width height fill_p rng y x (g, k) =
       Inr (g[nat y := (g ! nat y)[nat x := v]], k') \<and>
     (is_edge x y width height \<longrightarrow> v = WALL)"
proof (cases "is_edge x y width height")
  case True
  show ?thesis
    using grid_set_in_range [OF sh b, of WALL] True
    by (intro exI [of _ WALL] exI [of _ k]) (simp add: seed_cell_def)
next
  case False
  let ?v = "if rng k < fill_p then WALL else FLOOR"
  show ?thesis
    using grid_set_in_range [OF sh b, of ?v] False
    by (intro exI [of _ ?v] exI [of _ "k + 1"]) (simp add: seed_cell_def)
qed

lemma seed_grid_border:
  assumes sh: "has_shape g0 width height"
  shows "\<exists>g1 k1. seed_grid width height fill_p rng (g0, k0) = Inr (g1, k1) \<and>
     has_shape g1 width height \<and> border_is_wall g1 width height"
proof -
  define J where "J seen s \<longleftrightarrow> has_shape (fst s) width height \<and>
     (\<forall>y x. 0 \<le> x \<and> x < width \<and> 0 \<le> y \<and> y < height \<longrightarrow>
        is_edge x y width height \<longrightarrow> (y, x) \<in> seen \<longrightarrow> fst s ! nat y ! nat x = WALL)"
    for seen :: "(int \<times> int) set" and s :: "grid \<times> nat"
  define I where "I pre s \<longleftrightarrow> J (set pre \<times> UNIV) s" for pre s
  have inner: "\<exists>s'. for_loop (py_range 0 width) (seed_cell width height fill_p rng y) s = Inr s' \<and>
      I (pre @ [y]) s'"
    if "I pre s" and "y \<in> set (py_range 0 height)" for pre y s
  proof -
    have yb: "0 \<le> y" "y < height"
      using that(2) by (simp_all add: set_py_range)
    define I' where "I' prex s \<longleftrightarrow> J (set pre \<times> UNIV \<union> {y} \<times> set prex) s" for prex s
    have "\<exists>s'. for_loop (py_range 0 width) (seed_cell width height fill_p rng y) s = Inr s' \<and>
      I' (py_range 0 width) s'"
    proof (rule for_loop_invariant [where I = I'])
      show "I' [] s"
        using that(1) by (simp add: I'_def I_def)
    next
      fix prex x t
      assume t: "I' prex t" and "x \<in> set (py_range 0 width)"
      then have xb: "0 \<le> x" "x < width"
        by (simp_all add: set_py_range)
      obtain g k where gk: "t = (g, k)" by (cases t)
      have sh: "has_shape g width height"
        using t gk by (simp add: I'_def J_def)
      from seed_cell_result [OF sh xb yb, of fill_p rng k] obtain v k' where
        r: "seed_cell width height fill_p rng y x (g, k) =
          Inr (g[nat y := (g ! nat y)[nat x := v]], k')" and
        v: "is_edge x y width height \<longrightarrow> v = WALL"
        by blast
      have "I' (prex @ [x]) (g[nat y := (g ! nat y)[nat x := v]], k')"
        unfolding I'_def J_def
      proof (intro conjI allI impI)
        show "has_shape (fst (g[nat y := (g ! nat y)[nat x := v]], k')) width height"
          using has_shape_update [OF sh] by simp
      next
        fix y' x'
        assume bnd: "0 \<le> x' \<and> x' < width \<and> 0 \<le> y' \<and> y' < height"
          and e: "is_edge x' y' width height"
          and m: "(y', x') \<in> set pre \<times> UNIV \<union> {y} \<times> set (prex @ [x])"
        have upd: "g[nat y := (g ! nat y)[nat x := v]] ! nat y' ! nat x' =
            (if y' = y \<and> x' = x then v else g ! nat y' ! nat x')"
          using nth_grid_update [OF sh xb yb, of x' y'] bnd by simp
        show "fst (g[nat y := (g ! nat y)[nat x := v]], k') ! nat y' ! nat x' = WALL"
        proof (cases "y' = y \<and> x' = x")
          case True
          with upd v e show ?thesis by simp
        next
          case False
          with m have "(y', x') \<in> set pre \<times> UNIV \<union> {y} \<times> set prex"
            by auto
          with t gk bnd e have "g ! nat y' ! nat x' = WALL"
            unfolding I'_def J_def by auto
          with upd False show ?thesis by simp
        qed
      qed
      with r gk show "\<exists>s'. seed_cell width height fill_p rng y x t = Inr s' \<and> I' (prex @ [x]) s'"
        by blast
    qed
    then obtain s' where
      r: "for_loop (py_range 0 width) (seed_cell width height fill_p rng y) s = Inr s'" and
      i: "I' (py_range 0 width) s'"
      by blast
    have "I (pre @ [y]) s'"
      unfolding I_def J_def
    proof (intro conjI allI impI)
      show "has_shape (fst s') width height"
        using i by (simp add: I'_def J_def)
    next
      fix y' x'
      assume bnd: "0 \<le> x' \<and> x' < width \<and> 0 \<le> y' \<and> y' < height"
        and e: "is_edge x' y' width height"
        and m: "(y', x') \<in> set (pre @ [y]) \<times> UNIV"
      from bnd have "x' \<in> set (py_range 0 width)"
        by (simp add: set_py_range)
      with m have "(y', x') \<in> set pre \<times> UNIV \<union> {y} \<times> set (py_range 0 width)"
        by auto
      with i bnd e show "fst s' ! nat y' ! nat x' = WALL"
        unfolding I'_def J_def by auto
    qed
    with r show ?thesis by blast
  qed
  have "\<exists>s'. for_loop (py_range 0 height)
      (\<lambda>y. for_loop (py_range 0 width) (seed_cell width height fill_p rng y)) (g0, k0) = Inr s' \<and>
      I (py_range 0 height) s'"
  proof (rule for_loop_invariant [where I = I])
    show "I [] (g0, k0)"
      using sh by (simp add: I_def J_def)
  next
    fix pre y s
    assume "I pre s" and "y \<in> set (py_range 0 height)"
    then show "\<exists>s'. for_loop (py_range 0 width) (seed_cell width height fill_p rng y) s = Inr s' \<and>
      I (pre @ [y]) s'"
      by (rule inner)
  qed
  then obtain s' where r: "seed_grid width height fill_p rng (g0, k0) = Inr s'"
    and i: "I (py_range 0 height) s'"
    unfolding seed_grid_def by blast
  obtain g1 k1 where s': "s' = (g1, k1)" by (cases s')
  have "has_shape g1 width height"
    using i s' by (simp add: I_def J_def)
  moreover have "border_is_wall g1 width height"
    unfolding border_is_wall_iff
  proof (intro allI impI)
    fix y x
    assume bnd: "0 \<le> x \<and> x < width \<and> 0 \<le> y \<and> y < height" and e: "is_edge x y width height"
    from bnd have "(y, x) \<in> set (py_range 0 height) \<times> UNIV"
      by (simp add: set_py_range)
    with i s' bnd e show "g1 ! nat y ! nat x = WALL"
      unfolding I_def J_def by auto
  qed
  ultimately show ?thesis
    using r s' by blast
qed

section \<open>The border under the automaton and the micro-smoother\<close>

lemma border_counts_as_wall:
  assumes "border_is_wall g width height"
    and "\<not> ((0 \<le> nx \<and> nx < width) \<and> (0 \<le> ny \<and> ny < height)) \<or> is_edge nx ny width height"
  shows "counts_as_wall g width height nx ny"
proof (cases "(0 \<le> nx \<and> nx < width) \<and> (0 \<le> ny \<and> ny < height)")
  case True
  with assms(2) have "is_edge nx ny width height" by blast
  with assms(1) True have "g ! nat ny ! nat nx = WALL"
    unfolding border_is_wall_iff by blast
  then show ?thesis
    by (simp add: counts_as_wall_def)
next
  case False
  then show ?thesis
    unfolding counts_as_wall_def by blast
qed

lemma wall_neighbors_sum:
  "wall_neighbors g x y width height =
     (if counts_as_wall g width height (x - 1) (y - 1) then 1 else 0) +
     (if counts_as_wall g width height (x - 1) y then 1 else 0) +
     (if counts_as_wall g width height (x - 1) (y + 1) then 1 else 0) +
     (if counts_as_wall g width height x (y - 1) then 1 else 0) +
     (if counts_as_wall g width height x (y + 1) then 1 else 0) +
     (if counts_as_wall g width height (x + 1) (y - 1) then 1 else 0) +
     (if counts_as_wall g width height (x + 1) y then 1 else 0) +
     (if counts_as_wall g width height (x + 1) (y + 1) then 1 else 0)"
  by (simp add: wall_neighbors_def surrounding_def)

lemma border_cell_count:
  assumes bw: "border_is_wall g width height"
    and b: "0 \<le> x" "x < width" "0 \<le> y" "y < height"
    and e: "is_edge x y width height"
  shows "5 \<le> wall_neighbors g x y width height"
proof -
  note c = border_counts_as_wall [OF bw]
  from e consider "x = 0" | "y = 0" | "x = width - 1" | "y = height - 1"
    unfolding is_edge_def by blast
  then show ?thesis
  proof cases
    case 1
    have "counts_as_wall g width height (x - 1) (y - 1)"
      "counts_as_wall g width height (x - 1) y"
      "counts_as_wall g width height (x - 1) (y + 1)"
      "counts_as_wall g width height x (y - 1)"
      "counts_as_wall g width height x (y + 1)"
      using 1 by (auto intro!: c simp add: is_edge_def)
    then show ?thesis
      unfolding wall_neighbors_sum by simp
  next
    case 2
    have "counts_as_wall g width height (x - 1) (y - 1)"
      "counts_as_wall g width height x (y - 1)"
      "counts_as_wall g width height (x + 1) (y - 1)"
      "counts_as_wall g width height (x - 1) y"
      "counts_as_wall g width height (x + 1) y"
      using 2 by (auto intro!: c simp add: is_edge_def)
    then show ?thesis
      unfolding wall_neighbors_sum by simp
  next
    case 3
    have "counts_as_wall g width height (x + 1) (y - 1)"
      "counts_as_wall g width height (x + 1) y"
      "counts_as_wall g width height (x + 1) (y + 1)"
      "counts_as_wall g width height x (y - 1)"
      "counts_as_wall g width height x (y + 1)"
      using 3 by (auto intro!: c simp add: is_edge_def)
    then show ?thesis
      unfolding wall_neighbors_sum by simp
  next
    case 4
    have "counts_as_wall g width height (x - 1) (y + 1)"
      "counts_as_wall g width height x (y + 1)"
      "counts_as_wall g width height (x + 1) (y + 1)"
      "counts_as_wall g width height (x - 1) y"
      "counts_as_wall g width height (x + 1) y"
      using 4 by (auto intro!: c simp add: is_edge_def)
    then show ?thesis
      unfolding wall_neighbors_sum by simp
  qed
qed

lemma automaton_step_border:
  assumes sh: "has_shape g width height"
  shows "\<exists>ng. automaton_step g width height birth survive = Inr ng \<and>
     has_shape ng width height \<and>
     (survive \<le> 5 \<and> border_is_wall g width height \<longrightarrow> border_is_wall ng width height)"
proof -
  from automaton_step_cells [OF sh, of birth survive] obtain ng where
    r: "automaton_step g width height birth survive = Inr ng" and
    sh': "has_shape ng width height" and
    c: "\<And>y x. 0 \<le> x \<and> x < width \<and> 0 \<le> y \<and> y < height \<Longrightarrow>
        ng ! nat y ! nat x =
          (if g ! nat y ! nat x = WALL
           then (if wall_neighbors g x y width height \<ge> survive then WALL else FLOOR)
           else (if wall_neighbors g x y width height \<ge> birth then WALL else FLOOR))"
    by blast
  have "border_is_wall ng width height" if s: "survive \<le> 5" and bw: "border_is_wall g width height"
    unfolding border_is_wall_iff
  proof (intro allI impI)
    fix y x
    assume bnd: "0 \<le> x \<and> x < width \<and> 0 \<le> y \<and> y < height" and e: "is_edge x y width height"
    from bw bnd e have w: "g ! nat y ! nat x = WALL"
      unfolding border_is_wall_iff by blast
    from border_cell_count [OF bw _ _ _ _ e] bnd have "5 \<le> wall_neighbors g x y width height"
      by blast
    with s have "survive \<le> wall_neighbors g x y width height"
      by linarith
    with c [OF bnd] w show "ng ! nat y ! nat x = WALL"
      by simp
  qed
  with r sh' show ?thesis by blast
qed

lemma micro_smooth_border:
  assumes sh: "has_shape g width height"
  shows "\<exists>ng. micro_smooth g width height = Inr ng \<and> has_shape ng width height \<and>
     (border_is_wall g width height \<longrightarrow> border_is_wall ng width height)"
proof -
  from micro_smooth_cells [OF sh] obtain ng where
    r: "micro_smooth g width height = Inr ng" and sh': "has_shape ng width height" and
    c: "\<And>y x. 0 \<le> x \<and> x < width \<and> 0 \<le> y \<and> y < height \<Longrightarrow>
        ng ! nat y ! nat x =
          (if (1 \<le> y \<and> y < height - 1) \<and> (1 \<le> x \<and> x < width - 1) then
             (if wall_neighbors g x y width height > 5 then WALL
              else if wall_neighbors g x y width height < 3 then FLOOR
              else g ! nat y ! nat x)
           else g ! nat y ! nat x)"
    by blast
  have "border_is_wall ng width height" if bw: "border_is_wall g width height"
    unfolding border_is_wall_iff
  proof (intro allI impI)
    fix y x
    assume bnd: "0 \<le> x \<and> x < width \<and> 0 \<le> y \<and> y < height" and e: "is_edge x y width height"
    from bw bnd e have w: "g ! nat y ! nat x = WALL"
      unfolding border_is_wall_iff by blast
    from e have n: "\<not> ((1 \<le> y \<and> y < height - 1) \<and> (1 \<le> x \<and> x < width - 1))"
      unfolding is_edge_def by linarith
    show "ng ! nat y ! nat x = WALL"
      by (simp only: c [OF bnd] if_not_P [OF n] w)
  qed
  with r sh' show ?thesis by blast
qed

section \<open>Regions are made of FLOOR positions\<close>

lemma set_floor_cells:
  "set (floor_cells g) =
     {(int i, int j) | i j. i < length g \<and> j < length (g ! i) \<and> g ! i ! j = FLOOR}"
  by (auto simp add: floor_cells_def split: if_splits)

lemma floor_cells_iff:
  "(y, x) \<in> set (floor_cells g) \<longleftrightarrow>
     (0 \<le> y \<and> nat y < length g) \<and> (0 \<le> x \<and> nat x < length (g ! nat y)) \<and>
     g ! nat y ! nat x = FLOOR"
proof
  assume "(y, x) \<in> set (floor_cells g)"
  then obtain i j where "i < length g" "j < length (g ! i)" "g ! i ! j = FLOOR"
    "y = int i" "x = int j"
    unfolding set_floor_cells by blast
  then show "(0 \<le> y \<and> nat y < length g) \<and> (0 \<le> x \<and> nat x < length (g ! nat y)) \<and>
     g ! nat y ! nat x = FLOOR"
    by simp
next
  assume a: "(0 \<le> y \<and> nat y < length g) \<and> (0 \<le> x \<and> nat x < length (g ! nat y)) \<and>
     g ! nat y ! nat x = FLOOR"
  then have "y = int (nat y)" and "x = int (nat x)"
    by simp_all
  with a show "(y, x) \<in> set (floor_cells g)"
    unfolding set_floor_cells by blast
qed

lemma floor_cells_shape:
  assumes "has_shape g width height"
  shows "(y, x) \<in> set (floor_cells g) \<longleftrightarrow>
     (0 \<le> x \<and> x < width \<and> 0 \<le> y \<and> y < height) \<and> g ! nat y ! nat x = FLOOR"
proof -
  have h: "int (length g) = height"
    using assms by (rule has_shape_length)
  have w: "int (length (g ! nat y)) = width" if "0 \<le> y" "y < height"
    using has_shape_row [OF assms that] .
  show ?thesis
    unfolding floor_cells_iff using h w by (auto simp add: nat_less_iff)
qed

lemma adjacent8_refl: "adjacent8 c c"
  by (simp add: adjacent8_def)

lemma grow_subset: "set (grow cells s) \<subseteq> set cells"
  by (auto simp add: grow_def)

lemma grow_keeps: "set s \<subseteq> set cells \<Longrightarrow> set s \<subseteq> set (grow cells s)"
  using adjacent8_refl by (auto simp add: grow_def)

lemma grow_iterate:
  assumes "c \<in> set cells"
  shows "c \<in> set ((grow cells ^^ n) [c]) \<and> set ((grow cells ^^ n) [c]) \<subseteq> set cells"
proof (induction n)
  case 0
  from assms show ?case by simp
next
  case (Suc n)
  then have "set ((grow cells ^^ n) [c]) \<subseteq> set (grow cells ((grow cells ^^ n) [c]))"
    by (intro grow_keeps) simp
  with Suc grow_subset [of cells "(grow cells ^^ n) [c]"] show ?case
    by auto
qed

lemma flood_component_member:
  assumes "c \<in> set cells"
  shows "c \<in> set (flood_component cells c)"
    and "set (flood_component cells c) \<subseteq> set cells"
  using grow_iterate [OF assms, of "length cells"] by (simp_all add: flood_component_def)

lemma label_scan_regions:
  assumes "r \<in> set (label_scan cells todo regions)"
  shows "r \<in> set regions \<or> (\<exists>c\<in>set todo. r = flood_component cells c)"
  using assms
proof (induction todo arbitrary: regions)
  case Nil
  then show ?case by simp
next
  case (Cons c cs)
  show ?case
  proof (cases "\<exists>r\<in>set regions. c \<in> set r")
    case True
    with Cons.prems have "r \<in> set (label_scan cells cs regions)"
      by simp
    from Cons.IH [OF this] show ?thesis by auto
  next
    case False
    with Cons.prems have "r \<in> set (label_scan cells cs (regions @ [flood_component cells c]))"
      by simp
    from Cons.IH [OF this] show ?thesis by auto
  qed
qed

lemma flood_fill_region_is_component:
  assumes "r \<in> set (flood_fill_regions g)"
  shows "\<exists>c\<in>set (floor_cells g). r = flood_component (floor_cells g) c"
  using label_scan_regions [of r "floor_cells g" "floor_cells g" "[]"] assms
  by (simp add: flood_fill_regions_def)

lemma flood_fill_region_floor:
  assumes "r \<in> set (flood_fill_regions g)"
  shows "r \<noteq> []" and "set r \<subseteq> set (floor_cells g)"
proof -
  from flood_fill_region_is_component [OF assms] obtain c where
    c: "c \<in> set (floor_cells g)" and r: "r = flood_component (floor_cells g) c"
    by blast
  from flood_component_member [OF c] r show "r \<noteq> []" and "set r \<subseteq> set (floor_cells g)"
    by auto
qed

lemma flood_fill_region_in_grid:
  assumes "has_shape g width height" and "r \<in> set (flood_fill_regions g)"
  shows "in_grid r width height"
  unfolding in_grid_def list_all_iff
proof
  fix c assume "c \<in> set r"
  with flood_fill_region_floor(2) [OF assms(2)] have "c \<in> set (floor_cells g)"
    by blast
  moreover obtain y x where "c = (y, x)" by (cases c)
  ultimately show "case c of (y, x) \<Rightarrow> (0 \<le> y \<and> y < height) \<and> (0 \<le> x \<and> x < width)"
    using floor_cells_shape [OF assms(1), of y x] by simp
qed

lemma flood_fill_region_off_border:
  assumes "has_shape g width height" and "border_is_wall g width height"
    and "r \<in> set (flood_fill_regions g)" and "(y, x) \<in> set r"
  shows "\<not> is_edge x y width height"
proof
  assume e: "is_edge x y width height"
  from flood_fill_region_floor(2) [OF assms(3)] assms(4) have "(y, x) \<in> set (floor_cells g)"
    by blast
  then have b: "0 \<le> x \<and> x < width \<and> 0 \<le> y \<and> y < height" and f: "g ! nat y ! nat x = FLOOR"
    using floor_cells_shape [OF assms(1)] by simp_all
  from assms(2) b e have "g ! nat y ! nat x = WALL"
    unfolding border_is_wall_iff by blast
  with f show False
    by (simp add: WALL_def FLOOR_def)
qed

lemma fold_pick_member:
  "fold (\<lambda>region best. if length region > length best then region else best) rs r \<in> set (r # rs)"
proof (induction rs arbitrary: r)
  case Nil
  then show ?case by simp
next
  case (Cons a rs)
  show ?case
    using Cons.IH [of a] Cons.IH [of r] by auto
qed

lemma largest_region_member:
  assumes "regions \<noteq> []"
  shows "largest_region regions \<in> set regions"
  using assms fold_pick_member by (cases regions) simp_all

section \<open>The border under carving\<close>

lemma on_corridor_off_border:
  assumes oc: "on_corridor r ((y1, x1), (y2, x2)) y x"
    and p: "0 \<le> y1 \<and> y1 < height" "0 \<le> x1 \<and> x1 < width" "\<not> is_edge x1 y1 width height"
    and q: "0 \<le> y2 \<and> y2 < height" "0 \<le> x2 \<and> x2 < width" "\<not> is_edge x2 y2 width height"
  shows "\<not> is_edge x y width height"
proof -
  from p have p': "0 < y1" "y1 < height - 1" "0 < x1" "x1 < width - 1"
    unfolding is_edge_def by linarith+
  from q have q': "0 < y2" "y2 < height - 1" "0 < x2" "x2 < width - 1"
    unfolding is_edge_def by linarith+
  from oc have "(y = y1 \<or> y = y2 \<or> (min y1 y2 \<le> y \<and> y \<le> max y1 y2)) \<and>
      (x = x1 \<or> x = x2 \<or> (min x1 x2 \<le> x \<and> x \<le> max x1 x2))"
    unfolding on_corridor_def by (auto split: if_splits)
  with p' q' have "0 < y \<and> y < height - 1 \<and> 0 < x \<and> x < width - 1"
    by linarith
  then show ?thesis
    unfolding is_edge_def by linarith
qed

lemma carve_corridor_border:
  assumes sh: "has_shape g width height"
    and ne: "region_a \<noteq> []" "region_b \<noteq> []"
    and ia: "in_grid region_a width height" and ib: "in_grid region_b width height"
  shows "\<exists>ng. carve_corridor g region_a region_b r = Inr ng \<and> has_shape ng width height \<and>
     ((\<forall>c\<in>set region_a \<union> set region_b. \<not> is_edge (snd c) (fst c) width height) \<and>
      border_is_wall g width height \<longrightarrow> border_is_wall ng width height)"
proof -
  from carve_corridor_cells [OF sh ne ia ib, of r] obtain p q ng where
    p: "p \<in> set region_a" and q: "q \<in> set region_b" and
    r: "carve_corridor g region_a region_b r = Inr ng" and
    sh': "has_shape ng width height" and
    c: "\<And>y x. 0 \<le> x \<and> x < width \<and> 0 \<le> y \<and> y < height \<Longrightarrow>
        ng ! nat y ! nat x = (if on_corridor r (p, q) y x then FLOOR else g ! nat y ! nat x)"
    by blast
  obtain y1 x1 y2 x2 where pq: "p = (y1, x1)" "q = (y2, x2)"
    by (cases p; cases q) blast
  have b1: "0 \<le> y1 \<and> y1 < height" "0 \<le> x1 \<and> x1 < width"
    using in_grid_cell [OF ia, of y1 x1] p pq by simp_all
  have b2: "0 \<le> y2 \<and> y2 < height" "0 \<le> x2 \<and> x2 < width"
    using in_grid_cell [OF ib, of y2 x2] q pq by simp_all
  have "border_is_wall ng width height"
    if ob: "\<forall>c\<in>set region_a \<union> set region_b. \<not> is_edge (snd c) (fst c) width height"
      and bw: "border_is_wall g width height"
    unfolding border_is_wall_iff
  proof (intro allI impI)
    fix y x
    assume bnd: "0 \<le> x \<and> x < width \<and> 0 \<le> y \<and> y < height" and e: "is_edge x y width height"
    have e1: "\<not> is_edge x1 y1 width height"
      using ob [rule_format, of "(y1, x1)"] p pq by simp
    have e2: "\<not> is_edge x2 y2 width height"
      using ob [rule_format, of "(y2, x2)"] q pq by simp
    have n: "\<not> on_corridor r (p, q) y x"
      using on_corridor_off_border [OF _ b1 e1 b2 e2, of r y x] e pq by blast
    from bw bnd e have "g ! nat y ! nat x = WALL"
      unfolding border_is_wall_iff by blast
    then show "ng ! nat y ! nat x = WALL"
      by (simp only: c [OF bnd] if_not_P [OF n])
  qed
  with r sh' show ?thesis by blast
qed

lemma connect_body_border:
  assumes sh: "has_shape g width height"
    and m: "main \<noteq> []" "in_grid main width height"
    and rg: "region \<noteq> []" "in_grid region width height"
  shows "\<exists>g' k'. connect_body main min_region rng region (g, k) = Inr (g', k') \<and>
     has_shape g' width height \<and>
     ((\<forall>c\<in>set main \<union> set region. \<not> is_edge (snd c) (fst c) width height) \<and>
      border_is_wall g width height \<longrightarrow> border_is_wall g' width height)"
proof (cases "int (length region) \<ge> min_region \<and> \<not> region = main")
  case True
  from carve_corridor_border [OF sh m(1) rg(1) m(2) rg(2), of "rng k"] obtain ng where
    "carve_corridor g main region (rng k) = Inr ng" "has_shape ng width height"
    "(\<forall>c\<in>set main \<union> set region. \<not> is_edge (snd c) (fst c) width height) \<and>
      border_is_wall g width height \<longrightarrow> border_is_wall ng width height"
    by blast
  with True show ?thesis
    by (simp add: connect_body_def)
next
  case False
  with sh show ?thesis
    by (auto simp add: connect_body_def)
qed

lemma connect_regions_border:
  assumes sh: "has_shape g width height"
    and rs: "\<And>r. r \<in> set regions \<Longrightarrow> r \<noteq> [] \<and> in_grid r width height"
  shows "(\<exists>s'. connect_regions regions min_region rng (g, k) = Inr s' \<and>
       has_shape (fst s') width height \<and>
       ((\<forall>r\<in>set regions. \<forall>c\<in>set r. \<not> is_edge (snd c) (fst c) width height) \<and>
        border_is_wall g width height \<longrightarrow> border_is_wall (fst s') width height)) \<and>
     (\<forall>t\<in>set (for_loop_states regions
          (connect_body (largest_region regions) min_region rng) (g, k)).
       has_shape (fst t) width height \<and>
       ((\<forall>r\<in>set regions. \<forall>c\<in>set r. \<not> is_edge (snd c) (fst c) width height) \<and>
        border_is_wall g width height \<longrightarrow> border_is_wall (fst t) width height))"
proof (cases "regions = []")
  case True
  with sh show ?thesis
    by (simp add: connect_regions_def)
next
  case False
  let ?main = "largest_region regions"
  let ?Q = "(\<forall>r\<in>set regions. \<forall>c\<in>set r. \<not> is_edge (snd c) (fst c) width height) \<and>
        border_is_wall g width height"
  define I where "I s \<longleftrightarrow> has_shape (fst s) width height \<and>
    (?Q \<longrightarrow> border_is_wall (fst s) width height)" for s :: "grid \<times> nat"
  have mm: "?main \<in> set regions"
    using False by (rule largest_region_member)
  have m: "?main \<noteq> []" "in_grid ?main width height"
    using rs [OF mm] by simp_all
  have "(\<exists>s'. for_loop regions (connect_body ?main min_region rng) (g, k) = Inr s' \<and> I s') \<and>
    (\<forall>t\<in>set (for_loop_states regions (connect_body ?main min_region rng) (g, k)). I t)"
  proof (rule for_loop_states_invariant)
    show "I (g, k)"
      using sh by (simp add: I_def)
  next
    fix region s
    assume i: "I s" and r: "region \<in> set regions"
    obtain g1 k1 where s: "s = (g1, k1)" by (cases s)
    have sh1: "has_shape g1 width height"
      using i s by (simp add: I_def)
    from connect_body_border [OF sh1 m, of region min_region rng k1] rs [OF r]
    obtain g' k' where
      b: "connect_body ?main min_region rng region (g1, k1) = Inr (g', k')" and
      sh': "has_shape g' width height" and
      bw: "(\<forall>c\<in>set ?main \<union> set region. \<not> is_edge (snd c) (fst c) width height) \<and>
        border_is_wall g1 width height \<longrightarrow> border_is_wall g' width height"
      by blast
    have "I (g', k')"
      unfolding I_def
    proof (intro conjI impI)
      show "has_shape (fst (g', k')) width height"
        using sh' by simp
    next
      assume q: ?Q
      with i s have "border_is_wall g1 width height"
        by (simp add: I_def)
      moreover from q mm r
      have "\<forall>c\<in>set ?main \<union> set region. \<not> is_edge (snd c) (fst c) width height"
        by blast
      ultimately show "border_is_wall (fst (g', k')) width height"
        using bw by simp
    qed
    with b s show "\<exists>s'. connect_body ?main min_region rng region s = Inr s' \<and> I s'"
      by blast
  qed
  with False show ?thesis
    by (simp add: connect_regions_def I_def)
qed

section \<open>A whole run\<close>

lemma last_chain: "last (a # xs @ ys) = last (last (a # xs) # ys)"
  by (simp add: last_append)

lemma fst_last_map: "fst (last (s # ss)) = last (fst s # map fst ss)"
  using last_map [of "s # ss" fst] by simp

lemma generate_cave_run:
  assumes wh: "0 \<le> p_width ps" "0 \<le> p_height ps"
  shows "(\<exists>g. generate_cave ps rng = Inr g \<and> has_shape g (p_width ps) (p_height ps) \<and>
        g = last (cave_states ps rng)) \<and>
     cave_states ps rng \<noteq> [] \<and>
     (\<forall>t\<in>set (cave_states ps rng). has_shape t (p_width ps) (p_height ps)) \<and>
     border_is_wall (hd (cave_states ps rng)) (p_width ps) (p_height ps) \<and>
     (p_survive ps \<le> 5 \<longrightarrow>
        (\<forall>t\<in>set (cave_states ps rng). border_is_wall t (p_width ps) (p_height ps)))"
proof -
  let ?w = "p_width ps" and ?h = "p_height ps"
  define Q where "Q \<longleftrightarrow> p_survive ps \<le> 5"
  define I where "I g \<longleftrightarrow> has_shape g ?w ?h \<and> (Q \<longrightarrow> border_is_wall g ?w ?h)" for g
  \<comment> \<open>allocation and seeding\<close>
  from np_zeros_shape [OF wh(2) wh(1)] obtain g0 where
    z: "np_zeros ?h ?w = Inr g0" and sh0: "has_shape g0 ?w ?h"
    by blast
  from seed_grid_border [OF sh0, of "p_fill_prob ps" rng 0] obtain g1 k1 where
    sd: "seed_grid ?w ?h (p_fill_prob ps) rng (g0, 0) = Inr (g1, k1)" and
    sh1: "has_shape g1 ?w ?h" and bw1: "border_is_wall g1 ?w ?h"
    by blast
  have i1: "I g1"
    using sh1 bw1 by (simp add: I_def)
  \<comment> \<open>the automaton loop\<close>
  let ?abody = "\<lambda>_ :: int. \<lambda>grid. automaton_step grid ?w ?h (p_birth ps) (p_survive ps)"
  define astates where "astates = for_loop_states (py_range 0 (p_ca_steps ps)) ?abody g1"
  have "(\<exists>s'. for_loop (py_range 0 (p_ca_steps ps)) ?abody g1 = Inr s' \<and> I s') \<and>
    (\<forall>t\<in>set (for_loop_states (py_range 0 (p_ca_steps ps)) ?abody g1). I t)"
  proof (rule for_loop_states_invariant)
    show "I g1" by (rule i1)
  next
    fix v :: int and s
    assume "I s"
    then have sh: "has_shape s ?w ?h" and bw: "Q \<longrightarrow> border_is_wall s ?w ?h"
      by (simp_all add: I_def)
    from automaton_step_border [OF sh, of "p_birth ps" "p_survive ps"] bw
    show "\<exists>s'. automaton_step s ?w ?h (p_birth ps) (p_survive ps) = Inr s' \<and> I s'"
      unfolding I_def Q_def by blast
  qed
  then obtain g2 where
    al: "automaton_loop (p_ca_steps ps) ?w ?h (p_birth ps) (p_survive ps) g1 = Inr g2" and
    i2: "I g2" and ia: "\<forall>t\<in>set astates. I t"
    unfolding automaton_loop_def astates_def by blast
  have g2: "g2 = last (g1 # astates)"
    using al unfolding automaton_loop_def astates_def by (rule for_loop_last_state)
  have sh2: "has_shape g2 ?w ?h"
    using i2 by (simp add: I_def)
  \<comment> \<open>the regions and the carving loop\<close>
  define regions where "regions = flood_fill_regions g2"
  let ?cbody = "connect_body (largest_region regions) (p_min_region ps) rng"
  define cstates where
    "cstates = (if regions \<noteq> [] then for_loop_states regions ?cbody (g2, k1) else [])"
  have rs: "r \<noteq> [] \<and> in_grid r ?w ?h" if "r \<in> set regions" for r
    using that flood_fill_region_floor(1) [of r g2] flood_fill_region_in_grid [OF sh2, of r]
    by (simp add: regions_def)
  have ob: "\<forall>r\<in>set regions. \<forall>c\<in>set r. \<not> is_edge (snd c) (fst c) ?w ?h" if Q
  proof (intro ballI)
    fix r c
    assume r: "r \<in> set regions" and c: "c \<in> set r"
    from that i2 have bw2: "border_is_wall g2 ?w ?h"
      by (simp add: I_def)
    from flood_fill_region_off_border [OF sh2 bw2, of r "fst c" "snd c"] r c
    show "\<not> is_edge (snd c) (fst c) ?w ?h"
      by (simp add: regions_def)
  qed
  from connect_regions_border [OF sh2 rs, of regions "p_min_region ps" rng k1] obtain s3 where
    cr: "connect_regions regions (p_min_region ps) rng (g2, k1) = Inr s3" and
    sh3: "has_shape (fst s3) ?w ?h" and
    bw3: "(\<forall>r\<in>set regions. \<forall>c\<in>set r. \<not> is_edge (snd c) (fst c) ?w ?h) \<and>
        border_is_wall g2 ?w ?h \<longrightarrow> border_is_wall (fst s3) ?w ?h" and
    ct: "\<forall>t\<in>set (for_loop_states regions ?cbody (g2, k1)).
       has_shape (fst t) ?w ?h \<and>
       ((\<forall>r\<in>set regions. \<forall>c\<in>set r. \<not> is_edge (snd c) (fst c) ?w ?h) \<and>
        border_is_wall g2 ?w ?h \<longrightarrow> border_is_wall (fst t) ?w ?h)"
    by blast
  have i3: "I (fst s3)"
    using sh3 bw3 ob i2 unfolding I_def by blast
  have ic: "\<forall>t\<in>set cstates. I (fst t)"
    using ct ob i2 unfolding I_def cstates_def by (auto split: if_splits)
  have s3: "s3 = last ((g2, k1) # cstates)"
  proof (cases "regions = []")
    case True
    with cr show ?thesis
      by (simp add: connect_regions_def cstates_def)
  next
    case False
    with cr have "for_loop regions ?cbody (g2, k1) = Inr s3"
      by (simp add: connect_regions_def)
    from for_loop_last_state [OF this] False show ?thesis
      by (simp add: cstates_def)
  qed
  obtain g3 k3 where s3': "s3 = (g3, k3)" by (cases s3)
  have g3: "g3 = fst (last ((g2, k1) # cstates))"
    using s3 s3' by (metis fst_conv)
  \<comment> \<open>the smoothing loop\<close>
  let ?sbody = "\<lambda>_ :: int. \<lambda>grid. micro_smooth grid ?w ?h"
  define sstates where "sstates = for_loop_states (py_range 0 (p_smoothing_passes ps)) ?sbody g3"
  have "(\<exists>s'. for_loop (py_range 0 (p_smoothing_passes ps)) ?sbody g3 = Inr s' \<and> I s') \<and>
    (\<forall>t\<in>set (for_loop_states (py_range 0 (p_smoothing_passes ps)) ?sbody g3). I t)"
  proof (rule for_loop_states_invariant)
    show "I g3" using i3 s3' by simp
  next
    fix v :: int and s
    assume "I s"
    then have sh: "has_shape s ?w ?h" and bw: "Q \<longrightarrow> border_is_wall s ?w ?h"
      by (simp_all add: I_def)
    from micro_smooth_border [OF sh] bw
    show "\<exists>s'. micro_smooth s ?w ?h = Inr s' \<and> I s'"
      unfolding I_def by blast
  qed
  then obtain g4 where
    sl: "smoothing_loop (p_smoothing_passes ps) ?w ?h g3 = Inr g4" and
    i4: "I g4" and iss: "\<forall>t\<in>set sstates. I t"
    unfolding smoothing_loop_def sstates_def by blast
  have g4: "g4 = last (g3 # sstates)"
    using sl unfolding smoothing_loop_def sstates_def by (rule for_loop_last_state)
  \<comment> \<open>the run as a whole\<close>
  have gc: "generate_cave ps rng = Inr g4"
    using z sd al cr s3' sl by (simp add: generate_cave_def regions_def)
  have cs: "cave_states ps rng = g1 # astates @ map fst cstates @ sstates"
    unfolding cave_states_def Let_def
    using z sd by (simp add: astates_def cstates_def sstates_def regions_def g2 g3)
  have "last (g1 # astates @ map fst cstates @ sstates) =
      last (last (g2 # map fst cstates) # sstates)"
    unfolding g2 by (simp only: last_chain [symmetric] append_Cons [symmetric] append_assoc)
      (simp add: last_append)
  also have "last (g2 # map fst cstates) = g3"
    unfolding g3 using fst_last_map [of "(g2, k1)" cstates] by simp
  finally have lst: "last (cave_states ps rng) = g4"
    using cs g4 by simp
  have all: "\<forall>t\<in>set (cave_states ps rng). I t"
    unfolding cs using i1 ia ic iss by auto
  have "hd (cave_states ps rng) = g1"
    using cs by simp
  with gc lst all i4 bw1 cs show ?thesis
    unfolding I_def Q_def by auto
qed

section \<open>C2: the border\<close>

lemma cave_states_prefix:
  assumes "np_zeros (p_height ps) (p_width ps) = Inr g0"
    and "seed_grid (p_width ps) (p_height ps) (p_fill_prob ps) rng (g0, 0) = Inr (g1, k1)"
  shows "\<exists>rest. cave_states ps rng =
     g1 # for_loop_states (py_range 0 (p_ca_steps ps))
            (\<lambda>_ grid. automaton_step grid (p_width ps) (p_height ps) (p_birth ps) (p_survive ps))
            g1 @ rest"
  by (simp add: cave_states_def Let_def assms)

lemma range5: "py_range 0 5 = [0, 1, 2, 3, 4]"
  by (simp add: py_range_def upto.simps)

lemma seed_example:
  "seed_grid 5 5 0 (\<lambda>_. 1 / 2) (replicate 5 (replicate 5 0), 0) =
     Inr ([[1, 1, 1, 1, 1], [1, 0, 0, 0, 1], [1, 0, 0, 0, 1], [1, 0, 0, 0, 1], [1, 1, 1, 1, 1]], 9)"
  by (simp add: seed_grid_def range5 seed_cell_def is_edge_def grid_set_def np_index_def
      WALL_def FLOOR_def eval_nat_numeral)

lemma step_example:
  "automaton_step [[1, 1, 1, 1, 1], [1, 0, 0, 0, 1], [1, 0, 0, 0, 1], [1, 0, 0, 0, 1], [1, 1, 1, 1, 1]]
      5 5 5 6 =
     Inr [[1, 1, 0, 1, 1], [1, 1, 0, 1, 1], [0, 0, 0, 0, 0], [1, 1, 0, 1, 1], [1, 1, 0, 1, 1]]"
  by (simp add: automaton_step_def range5 automaton_cell_def count_wall_neighbors_def py_range_m1_2
      cwn_body_def grid_get_def grid_set_def np_index_def WALL_def FLOOR_def)

lemma floor_example:
  "floor_cells [[1, 1, 0, 1, 1], [1, 1, 0, 1, 1], [0, 0, 0, 0, 0], [1, 1, 0, 1, 1], [1, 1, 0, 1, 1]] =
     [(0, 2), (1, 2), (2, 0), (2, 1), (2, 2), (2, 3), (2, 4), (3, 2), (4, 2)]"
  by (simp add: floor_cells_def FLOOR_def upt_rec)

lemma regions_example:
  "flood_fill_regions [[1, 1, 0, 1, 1], [1, 1, 0, 1, 1], [0, 0, 0, 0, 0], [1, 1, 0, 1, 1], [1, 1, 0, 1, 1]] =
     [[(0, 2), (1, 2), (2, 0), (2, 1), (2, 2), (2, 3), (2, 4), (3, 2), (4, 2)]]"
  unfolding flood_fill_regions_def floor_example
  by (simp add: flood_component_def grow_def adjacent8_def eval_nat_numeral)

lemma border_lost_example:
  "\<not> border_is_wall
     [[1, 1, 0, 1, 1], [1, 1, 0, 1, 1], [0, 0, 0, 0, 0], [1, 1, 0, 1, 1], [1, 1, 0, 1, 1]] 5 5"
proof
  assume "border_is_wall
     [[1, 1, 0, 1, 1], [1, 1, 0, 1, 1], [0, 0, 0, 0, 0], [1, 1, 0, 1, 1], [1, 1, 0, 1, 1]] 5 5"
  moreover have "0 \<le> (2 :: int) \<and> (2 :: int) < 5 \<and> 0 \<le> (0 :: int) \<and> (0 :: int) < 5"
    by simp
  moreover have "is_edge 2 0 5 5"
    by (simp add: is_edge_def)
  ultimately have "[[1, 1, 0, 1, 1], [1, 1, 0, 1, 1], [0, 0, 0, 0, 0], [1, 1, 0, 1, 1],
      [1, 1, 0, 1, 1]] ! nat 0 ! nat 2 = WALL"
    unfolding border_is_wall_iff by blast
  then show False
    by (simp add: WALL_def)
qed

text \<open>
  Claim C2 as stated fails. With width 5, height 5, fill probability 0, birth 5,
  survive 6 and one automaton step, the seeded grid has an all-FLOOR interior; the
  border cell of row 0, column 2 then has 5 counted neighbors, fewer than survive, and
  the step turns it to FLOOR. The grid after the step, which is also the grid the run
  returns, has a border that is not all WALL.
\<close>

theorem border_lost_counterexample:
  "generate_cave
     \<lparr>p_width = 5, p_height = 5, p_fill_prob = 0, p_birth = 5, p_survive = 6,
      p_ca_steps = 1, p_min_region = 30, p_smoothing_passes = 0\<rparr> (\<lambda>_. 1 / 2) =
     Inr [[1, 1, 0, 1, 1], [1, 1, 0, 1, 1], [0, 0, 0, 0, 0], [1, 1, 0, 1, 1], [1, 1, 0, 1, 1]] \<and>
   cave_states
     \<lparr>p_width = 5, p_height = 5, p_fill_prob = 0, p_birth = 5, p_survive = 6,
      p_ca_steps = 1, p_min_region = 30, p_smoothing_passes = 0\<rparr> (\<lambda>_. 1 / 2) ! 1 =
     [[1, 1, 0, 1, 1], [1, 1, 0, 1, 1], [0, 0, 0, 0, 0], [1, 1, 0, 1, 1], [1, 1, 0, 1, 1]] \<and>
   \<not> border_is_wall
     [[1, 1, 0, 1, 1], [1, 1, 0, 1, 1], [0, 0, 0, 0, 0], [1, 1, 0, 1, 1], [1, 1, 0, 1, 1]] 5 5"
proof -
  let ?P = "\<lparr>p_width = 5, p_height = 5, p_fill_prob = 0, p_birth = 5, p_survive = 6,
      p_ca_steps = 1, p_min_region = 30, p_smoothing_passes = 0\<rparr>"
  let ?G1 = "[[1, 1, 1, 1, 1], [1, 0, 0, 0, 1], [1, 0, 0, 0, 1], [1, 0, 0, 0, 1], [1, 1, 1, 1, 1 :: int]]"
  let ?G2 = "[[1, 1, 0, 1, 1], [1, 1, 0, 1, 1], [0, 0, 0, 0, 0], [1, 1, 0, 1, 1], [1, 1, 0, 1, 1 :: int]]"
  have z: "np_zeros 5 5 = Inr (replicate 5 (replicate 5 0))"
    by (simp add: np_zeros_def)
  have r1: "py_range 0 1 = [0]" and r0: "py_range 0 0 = []"
    by (simp_all add: py_range_def upto.simps)
  have al: "automaton_loop 1 5 5 5 6 ?G1 = Inr ?G2"
    by (simp add: automaton_loop_def r1 step_example)
  have cr: "connect_regions (flood_fill_regions ?G2) 30 (\<lambda>_. 1 / 2) (?G2, 9) = Inr (?G2, 9)"
    unfolding regions_example by (simp add: connect_regions_def connect_body_def)
  have sl: "smoothing_loop 0 5 5 ?G2 = Inr ?G2"
    by (simp add: smoothing_loop_def r0)
  have gc: "generate_cave ?P (\<lambda>_. 1 / 2) = Inr ?G2"
    by (simp add: generate_cave_def z seed_example al cr sl)
  from cave_states_prefix [of ?P "replicate 5 (replicate 5 0)" "\<lambda>_. 1 / 2" ?G1 9]
  obtain rest where "cave_states ?P (\<lambda>_. 1 / 2) =
      ?G1 # for_loop_states (py_range 0 1) (\<lambda>_ grid. automaton_step grid 5 5 5 6) ?G1 @ rest"
    by (auto simp add: z seed_example)
  then have "cave_states ?P (\<lambda>_. 1 / 2) ! 1 = ?G2"
    by (simp add: r1 step_example)
  with gc border_lost_example show ?thesis
    by (intro conjI)
qed

text \<open>
  Claim C2, amended. In every run of \<open>generate_cave\<close> that allocates its grid
  (width and height not negative), the run returns the last of its states, every
  border cell of the seeded grid is WALL, and when \<open>survive \<le> 5\<close> every border cell
  is WALL in every state of the run: after seeding, after each automaton step, after
  each iteration of the loop over the regions and after each micro-smoothing pass.
\<close>

theorem border_is_wall_when_survive_at_most_5:
  assumes "0 \<le> p_width ps" and "0 \<le> p_height ps"
  shows "(\<exists>g. generate_cave ps rng = Inr g \<and> g = last (cave_states ps rng)) \<and>
     cave_states ps rng \<noteq> [] \<and>
     border_is_wall (hd (cave_states ps rng)) (p_width ps) (p_height ps) \<and>
     (p_survive ps \<le> 5 \<longrightarrow>
        (\<forall>t\<in>set (cave_states ps rng). border_is_wall t (p_width ps) (p_height ps)))"
  using generate_cave_run [OF assms, of rng] by blast

theorem border_is_wall_witness:
  "(0 :: int) \<le> 5 \<and> (4 :: int) \<le> 5 \<and>
   (\<exists>g. generate_cave
      \<lparr>p_width = 5, p_height = 5, p_fill_prob = 45 / 100, p_birth = 5, p_survive = 4,
       p_ca_steps = 5, p_min_region = 30, p_smoothing_passes = 2\<rparr> (\<lambda>_. 1 / 2) = Inr g \<and>
      border_is_wall g 5 5)"
proof -
  let ?P = "\<lparr>p_width = 5, p_height = 5, p_fill_prob = 45 / 100, p_birth = 5, p_survive = 4,
       p_ca_steps = 5, p_min_region = 30, p_smoothing_passes = 2\<rparr>"
  have w: "0 \<le> p_width ?P" and h: "0 \<le> p_height ?P" and s: "p_survive ?P \<le> 5"
    by simp_all
  from border_is_wall_when_survive_at_most_5 [OF w h, of "\<lambda>_. 1 / 2"] s obtain g where
    g: "generate_cave ?P (\<lambda>_. 1 / 2) = Inr g" and l: "g = last (cave_states ?P (\<lambda>_. 1 / 2))" and
    ne: "cave_states ?P (\<lambda>_. 1 / 2) \<noteq> []" and
    a: "\<forall>t\<in>set (cave_states ?P (\<lambda>_. 1 / 2)). border_is_wall t (p_width ?P) (p_height ?P)"
    by blast
  from ne l have "g \<in> set (cave_states ?P (\<lambda>_. 1 / 2))"
    by simp
  with a have "border_is_wall g 5 5"
    by auto
  with g have "\<exists>g. generate_cave ?P (\<lambda>_. 1 / 2) = Inr g \<and> border_is_wall g 5 5"
    by blast
  then show ?thesis
    by simp
qed

section \<open>C9: parameters are not validated\<close>

text \<open>
  Claim C9 as stated fails. With a fill probability of 2 and all three counts
  negative, \<open>generate_cave\<close> raises nothing and returns a grid: every drawn value is
  below the fill probability, so the interior is seeded WALL, and a \<open>range\<close> of a
  negative count is empty, so the automaton and smoothing loops do not run.
\<close>

theorem no_parameter_validation_counterexample:
  "generate_cave
     \<lparr>p_width = 3, p_height = 3, p_fill_prob = 2, p_birth = 5, p_survive = 4,
      p_ca_steps = - 1, p_min_region = - 3, p_smoothing_passes = - 2\<rparr> (\<lambda>_. 1 / 2) =
     Inr [[1, 1, 1], [1, 1, 1], [1, 1, 1]]"
proof -
  have z: "np_zeros 3 3 = Inr (replicate 3 (replicate 3 0))"
    by (simp add: np_zeros_def)
  have r3: "py_range 0 3 = [0, 1, 2]" and rn1: "py_range 0 (- 1) = []"
    and rn2: "py_range 0 (- 2) = []"
    by (simp_all add: py_range_def upto.simps)
  have sd: "seed_grid 3 3 2 (\<lambda>_. 1 / 2) (replicate 3 (replicate 3 0), 0) =
      Inr ([[1, 1, 1], [1, 1, 1], [1, 1, 1]], 1)"
    by (simp add: seed_grid_def r3 seed_cell_def is_edge_def grid_set_def np_index_def
        WALL_def FLOOR_def eval_nat_numeral)
  have al: "automaton_loop (- 1) 3 3 5 4 [[1, 1, 1], [1, 1, 1], [1, 1, 1]] =
      Inr [[1, 1, 1], [1, 1, 1], [1, 1, 1]]"
    by (simp add: automaton_loop_def rn1)
  have fr: "flood_fill_regions [[1, 1, 1], [1, 1, 1], [1, 1, 1]] = []"
    by (simp add: flood_fill_regions_def floor_cells_def FLOOR_def upt_rec)
  have sl: "smoothing_loop (- 2) 3 3 [[1, 1, 1], [1, 1, 1], [1, 1, 1]] =
      Inr [[1, 1, 1], [1, 1, 1], [1, 1, 1]]"
    by (simp add: smoothing_loop_def rn2)
  show ?thesis
    by (simp add: generate_cave_def z sd al fr connect_regions_def sl)
qed

text \<open>
  Claim C9, amended. \<open>generate_cave\<close> validates none of its parameters. It fails,
  and returns no grid, exactly when the width or the height is negative, and then with
  the ValueError of the array allocation; for every other input (a zero width or
  height, a fill probability outside [0, 1], negative counts) it returns a grid of
  shape (height, width).
\<close>

theorem generate_cave_fails_only_on_negative_dimensions:
  "(p_width ps < 0 \<or> p_height ps < 0 \<longrightarrow> generate_cave ps rng = Inl ValueError) \<and>
   (0 \<le> p_width ps \<and> 0 \<le> p_height ps \<longrightarrow>
      (\<exists>g. generate_cave ps rng = Inr g \<and> has_shape g (p_width ps) (p_height ps)))"
proof (intro conjI impI)
  assume "p_width ps < 0 \<or> p_height ps < 0"
  then have "np_zeros (p_height ps) (p_width ps) = Inl ValueError"
    by (intro np_zeros_negative) blast
  then show "generate_cave ps rng = Inl ValueError"
    by (simp add: generate_cave_def)
next
  assume "0 \<le> p_width ps \<and> 0 \<le> p_height ps"
  then have "0 \<le> p_width ps" and "0 \<le> p_height ps"
    by simp_all
  from generate_cave_run [OF this, of rng]
  show "\<exists>g. generate_cave ps rng = Inr g \<and> has_shape g (p_width ps) (p_height ps)"
    by blast
qed

theorem generate_cave_fails_only_on_negative_dimensions_witness:
  "generate_cave
     \<lparr>p_width = - 1, p_height = 3, p_fill_prob = 45 / 100, p_birth = 5, p_survive = 4,
      p_ca_steps = 5, p_min_region = 30, p_smoothing_passes = 2\<rparr> (\<lambda>_. 1 / 2) =
     Inl ValueError \<and>
   (\<exists>g. generate_cave
      \<lparr>p_width = 0, p_height = 3, p_fill_prob = 2, p_birth = 5, p_survive = 4,
       p_ca_steps = - 1, p_min_region = - 3, p_smoothing_passes = - 2\<rparr> (\<lambda>_. 1 / 2) = Inr g \<and>
      has_shape g 0 3)"
proof -
  let ?N = "\<lparr>p_width = - 1, p_height = 3, p_fill_prob = 45 / 100, p_birth = 5, p_survive = 4,
      p_ca_steps = 5, p_min_region = 30, p_smoothing_passes = 2\<rparr>"
  let ?Z = "\<lparr>p_width = 0, p_height = 3, p_fill_prob = 2, p_birth = 5, p_survive = 4,
       p_ca_steps = - 1, p_min_region = - 3, p_smoothing_passes = - 2\<rparr>"
  have "p_width ?N < 0 \<or> p_height ?N < 0"
    by simp
  with generate_cave_fails_only_on_negative_dimensions [of ?N "\<lambda>_. 1 / 2"]
  have n: "generate_cave ?N (\<lambda>_. 1 / 2) = Inl ValueError"
    by blast
  have "0 \<le> p_width ?Z \<and> 0 \<le> p_height ?Z"
    by simp
  with generate_cave_fails_only_on_negative_dimensions [of ?Z "\<lambda>_. 1 / 2"]
  have "\<exists>g. generate_cave ?Z (\<lambda>_. 1 / 2) = Inr g \<and> has_shape g (p_width ?Z) (p_height ?Z)"
    by blast
  then have "\<exists>g. generate_cave ?Z (\<lambda>_. 1 / 2) = Inr g \<and> has_shape g 0 3"
    by simp
  with n show ?thesis
    by (intro conjI)
qed

section \<open>The region finder finds the connected components\<close>

lemma adjacent8_sym: "adjacent8 a b \<Longrightarrow> adjacent8 b a"
  by (simp add: adjacent8_def abs_minus_commute)

lemma floor_adj_sym: "sym (floor_adj F)"
  by (auto simp add: sym_def floor_adj_def adjacent8_sym)

lemma floor_adj_mono: "F \<subseteq> F' \<Longrightarrow> floor_adj F \<subseteq> floor_adj F'"
  by (auto simp add: floor_adj_def)

lemma reach_sym: "(a, b) \<in> (floor_adj F)\<^sup>* \<Longrightarrow> (b, a) \<in> (floor_adj F)\<^sup>*"
  using sym_rtrancl [OF floor_adj_sym, of F] by (rule symD)

lemma reach_mono: "F \<subseteq> F' \<Longrightarrow> (a, b) \<in> (floor_adj F)\<^sup>* \<Longrightarrow> (a, b) \<in> (floor_adj F')\<^sup>*"
  using rtrancl_mono [OF floor_adj_mono, of F F'] by blast

lemma set_grow: "set (grow cells s) = {d \<in> set cells. \<exists>a\<in>set s. adjacent8 a d}"
  by (auto simp add: grow_def)

lemma grow_cong: "set s = set t \<Longrightarrow> grow cells s = grow cells t"
  by (simp add: grow_def)

lemma grow_iterate_reach:
  assumes "c \<in> set cells" and "d \<in> set ((grow cells ^^ n) [c])"
  shows "(c, d) \<in> (floor_adj (set cells))\<^sup>*"
  using assms(2)
proof (induction n arbitrary: d)
  case 0
  then show ?case by simp
next
  case (Suc n)
  then obtain a where a: "a \<in> set ((grow cells ^^ n) [c])" and ad: "adjacent8 a d"
    and d: "d \<in> set cells"
    by (auto simp add: set_grow)
  from grow_iterate [OF assms(1), of n] a have "a \<in> set cells"
    by blast
  with ad d have "(a, d) \<in> floor_adj (set cells)"
    by (simp add: floor_adj_def)
  with Suc.IH [OF a] show ?case
    by (rule rtrancl_into_rtrancl)
qed

lemma grow_iterate_mono:
  assumes "c \<in> set cells"
  shows "set ((grow cells ^^ n) [c]) \<subseteq> set ((grow cells ^^ Suc n) [c])"
  using grow_keeps [of "(grow cells ^^ n) [c]" cells] grow_iterate [OF assms, of n]
  by simp

lemma grow_iterate_progress:
  assumes "c \<in> set cells"
  shows "set ((grow cells ^^ Suc n) [c]) = set ((grow cells ^^ n) [c]) \<or>
     Suc n \<le> card (set ((grow cells ^^ n) [c]))"
proof (induction n)
  case 0
  then show ?case by simp
next
  case (Suc n)
  show ?case
  proof (cases "set ((grow cells ^^ Suc n) [c]) = set ((grow cells ^^ n) [c])")
    case True
    then have "grow cells ((grow cells ^^ Suc n) [c]) = grow cells ((grow cells ^^ n) [c])"
      by (rule grow_cong)
    then show ?thesis by simp
  next
    case False
    with Suc have "Suc n \<le> card (set ((grow cells ^^ n) [c]))"
      by blast
    moreover from False grow_iterate_mono [OF assms, of n]
    have "set ((grow cells ^^ n) [c]) \<subset> set ((grow cells ^^ Suc n) [c])"
      by blast
    then have "card (set ((grow cells ^^ n) [c])) < card (set ((grow cells ^^ Suc n) [c]))"
      by (intro psubset_card_mono) simp_all
    ultimately show ?thesis by linarith
  qed
qed

lemma flood_component_fixed:
  assumes "c \<in> set cells"
  shows "set (grow cells (flood_component cells c)) = set (flood_component cells c)"
proof -
  let ?n = "length cells"
  have "card (set ((grow cells ^^ ?n) [c])) \<le> card (set cells)"
    using grow_iterate [OF assms, of ?n] by (intro card_mono) simp_all
  also have "\<dots> \<le> ?n"
    by (rule card_length)
  finally have "\<not> Suc ?n \<le> card (set ((grow cells ^^ ?n) [c]))"
    by simp
  with grow_iterate_progress [OF assms, of ?n] show ?thesis
    by (simp add: flood_component_def)
qed

lemma flood_component_closed:
  assumes c: "c \<in> set cells" and a: "a \<in> set (flood_component cells c)"
    and ab: "(a, b) \<in> (floor_adj (set cells))\<^sup>*"
  shows "b \<in> set (flood_component cells c)"
  using ab
proof (induction rule: rtrancl_induct)
  case base
  show ?case by (rule a)
next
  case (step u v)
  then have "v \<in> set cells" and "adjacent8 u v"
    by (simp_all add: floor_adj_def)
  with step.IH have "v \<in> set (grow cells (flood_component cells c))"
    by (auto simp add: set_grow)
  then show ?case
    unfolding flood_component_fixed [OF c] .
qed

lemma set_flood_component:
  assumes "c \<in> set cells"
  shows "set (flood_component cells c) = {d. (c, d) \<in> (floor_adj (set cells))\<^sup>*}"
proof (intro set_eqI iffI CollectI)
  fix d assume "d \<in> set (flood_component cells c)"
  then show "(c, d) \<in> (floor_adj (set cells))\<^sup>*"
    unfolding flood_component_def by (rule grow_iterate_reach [OF assms])
next
  fix d assume "d \<in> {d. (c, d) \<in> (floor_adj (set cells))\<^sup>*}"
  then have "(c, d) \<in> (floor_adj (set cells))\<^sup>*" by simp
  with flood_component_closed [OF assms flood_component_member(1) [OF assms]]
  show "d \<in> set (flood_component cells c)" by blast
qed

lemma label_scan_keeps: "set regions \<subseteq> set (label_scan cells todo regions)"
proof (induction todo arbitrary: regions)
  case Nil
  then show ?case by simp
next
  case (Cons c cs)
  show ?case
    using Cons.IH [of regions] Cons.IH [of "regions @ [flood_component cells c]"]
    by auto
qed

lemma label_scan_covers:
  assumes "set todo \<subseteq> set cells" and "c \<in> set todo"
  shows "\<exists>r\<in>set (label_scan cells todo regions). c \<in> set r"
  using assms
proof (induction todo arbitrary: regions)
  case Nil
  then show ?case by simp
next
  case (Cons d ds)
  show ?case
  proof (cases "c = d")
    case True
    show ?thesis
    proof (cases "\<exists>r\<in>set regions. d \<in> set r")
      case True
      then obtain r where "r \<in> set regions" and "d \<in> set r" by blast
      with label_scan_keeps [of regions cells "d # ds"] \<open>c = d\<close> show ?thesis
        by blast
    next
      case False
      from Cons.prems(1) have "d \<in> set cells" by simp
      then have "d \<in> set (flood_component cells d)"
        by (rule flood_component_member(1))
      moreover have "flood_component cells d \<in> set (label_scan cells (d # ds) regions)"
        using False label_scan_keeps [of "regions @ [flood_component cells d]" cells ds]
        by auto
      ultimately show ?thesis
        using \<open>c = d\<close> by blast
    qed
  next
    case False
    with Cons.prems have "c \<in> set ds" and "set ds \<subseteq> set cells"
      by simp_all
    from Cons.IH [OF this(2) this(1)] show ?thesis
      by auto
  qed
qed

lemma flood_fill_regions_cover:
  assumes "c \<in> set (floor_cells g)"
  shows "\<exists>r\<in>set (flood_fill_regions g). c \<in> set r"
  unfolding flood_fill_regions_def using assms by (intro label_scan_covers) simp_all

lemma label_scan_distinct:
  assumes "set todo \<subseteq> set cells" and "distinct regions"
  shows "distinct (label_scan cells todo regions)"
  using assms
proof (induction todo arbitrary: regions)
  case Nil
  then show ?case by simp
next
  case (Cons d ds)
  show ?case
  proof (cases "\<exists>r\<in>set regions. d \<in> set r")
    case True
    with Cons show ?thesis by simp
  next
    case False
    from Cons.prems(1) have "d \<in> set (flood_component cells d)"
      by (intro flood_component_member(1)) simp
    with False have "flood_component cells d \<notin> set regions"
      by blast
    with Cons.prems(2) have "distinct (regions @ [flood_component cells d])"
      by simp
    with Cons.IH [of "regions @ [flood_component cells d]"] Cons.prems(1) False show ?thesis
      by simp
  qed
qed

lemma flood_fill_regions_distinct: "distinct (flood_fill_regions g)"
  unfolding flood_fill_regions_def by (intro label_scan_distinct) simp_all

lemma grow_as_filter: "grow cells s = filter (\<lambda>d. d \<in> set (grow cells s)) cells"
  unfolding grow_def by (intro filter_cong) auto

lemma flood_component_as_filter:
  assumes "c \<in> set cells"
  shows "flood_component cells c = filter (\<lambda>d. d \<in> set (flood_component cells c)) cells"
proof -
  from assms have "length cells \<noteq> 0" by auto
  then obtain n where n: "length cells = Suc n"
    by (cases "length cells") simp_all
  have "flood_component cells c = grow cells ((grow cells ^^ n) [c])"
    by (simp add: flood_component_def n)
  with grow_as_filter [of cells "(grow cells ^^ n) [c]"] show ?thesis
    by simp
qed

lemma regions_sharing_a_cell:
  assumes r1: "r1 \<in> set (flood_fill_regions g)" and r2: "r2 \<in> set (flood_fill_regions g)"
    and a: "a \<in> set r1" "a \<in> set r2"
  shows "r1 = r2"
proof -
  let ?cells = "floor_cells g"
  from flood_fill_region_is_component [OF r1] obtain c1 where
    c1: "c1 \<in> set ?cells" and e1: "r1 = flood_component ?cells c1"
    by blast
  from flood_fill_region_is_component [OF r2] obtain c2 where
    c2: "c2 \<in> set ?cells" and e2: "r2 = flood_component ?cells c2"
    by blast
  from a have p1: "(c1, a) \<in> (floor_adj (set ?cells))\<^sup>*" and p2: "(c2, a) \<in> (floor_adj (set ?cells))\<^sup>*"
    unfolding e1 e2 set_flood_component [OF c1] set_flood_component [OF c2] by simp_all
  have c12: "(c1, c2) \<in> (floor_adj (set ?cells))\<^sup>*"
    using p1 reach_sym [OF p2] by (rule rtrancl_trans)
  have "set (flood_component ?cells c1) = set (flood_component ?cells c2)"
    unfolding set_flood_component [OF c1] set_flood_component [OF c2]
  proof (intro set_eqI iffI CollectI)
    fix d assume "d \<in> {d. (c1, d) \<in> (floor_adj (set ?cells))\<^sup>*}"
    then have "(c1, d) \<in> (floor_adj (set ?cells))\<^sup>*" by simp
    with reach_sym [OF c12] show "(c2, d) \<in> (floor_adj (set ?cells))\<^sup>*"
      by (rule rtrancl_trans)
  next
    fix d assume "d \<in> {d. (c2, d) \<in> (floor_adj (set ?cells))\<^sup>*}"
    then have "(c2, d) \<in> (floor_adj (set ?cells))\<^sup>*" by simp
    with c12 show "(c1, d) \<in> (floor_adj (set ?cells))\<^sup>*"
      by (rule rtrancl_trans)
  qed
  then have "filter (\<lambda>d. d \<in> set (flood_component ?cells c1)) ?cells =
      filter (\<lambda>d. d \<in> set (flood_component ?cells c2)) ?cells"
    by simp
  then show ?thesis
    unfolding e1 e2
    using flood_component_as_filter [OF c1] flood_component_as_filter [OF c2] by simp
qed

lemma region_cells_connected:
  assumes r: "r \<in> set (flood_fill_regions g)" and a: "a \<in> set r" and b: "b \<in> set r"
  shows "(a, b) \<in> (floor_adj (set (floor_cells g)))\<^sup>*"
proof -
  from flood_fill_region_is_component [OF r] obtain c where
    c: "c \<in> set (floor_cells g)" and e: "r = flood_component (floor_cells g) c"
    by blast
  from a b have "(c, a) \<in> (floor_adj (set (floor_cells g)))\<^sup>*"
    and "(c, b) \<in> (floor_adj (set (floor_cells g)))\<^sup>*"
    unfolding e set_flood_component [OF c] by simp_all
  with reach_sym show ?thesis
    by (blast intro: rtrancl_trans)
qed

lemma region_closed:
  assumes r: "r \<in> set (flood_fill_regions g)" and a: "a \<in> set r"
    and ab: "(a, b) \<in> (floor_adj (set (floor_cells g)))\<^sup>*"
  shows "b \<in> set r"
proof -
  from flood_fill_region_is_component [OF r] obtain c where
    c: "c \<in> set (floor_cells g)" and e: "r = flood_component (floor_cells g) c"
    by blast
  from flood_component_closed [OF c _ ab] a e show ?thesis
    by simp
qed

section \<open>A corridor connects its endpoints\<close>

lemma chain_connected_le:
  fixes f :: "int \<Rightarrow> cell" and a b :: int
  assumes "a \<le> b"
    and "\<And>i. f i \<in> F \<or> \<not> (a \<le> i \<and> i \<le> b)"
    and "\<And>i. adjacent8 (f i) (f (i + 1))"
  shows "(f a, f b) \<in> (floor_adj F)\<^sup>*"
  using assms(1,2)
proof (induction b rule: int_ge_induct)
  case base
  show ?case by simp
next
  case (step b)
  have "(f a, f b) \<in> (floor_adj F)\<^sup>*"
  proof (rule step.IH)
    fix i
    from step.prems [of i] show "f i \<in> F \<or> \<not> (a \<le> i \<and> i \<le> b)"
      by linarith
  qed
  moreover have "f b \<in> F" and "f (b + 1) \<in> F"
    using step.prems [of b] step.prems [of "b + 1"] step.hyps by simp_all
  then have "(f b, f (b + 1)) \<in> floor_adj F"
    using assms(3) [of b] by (simp add: floor_adj_def)
  ultimately show ?case
    by (rule rtrancl_into_rtrancl)
qed

lemma chain_connected:
  fixes f :: "int \<Rightarrow> cell" and a b :: int
  assumes "\<And>i. f i \<in> F \<or> \<not> (min a b \<le> i \<and> i \<le> max a b)"
    and "\<And>i. adjacent8 (f i) (f (i + 1))"
  shows "(f a, f b) \<in> (floor_adj F)\<^sup>*"
proof (cases "a \<le> b")
  case True
  show ?thesis
  proof (rule chain_connected_le [where f = f and F = F])
    show "a \<le> b" by (rule True)
  next
    fix i
    from assms(1) [of i] True show "f i \<in> F \<or> \<not> (a \<le> i \<and> i \<le> b)"
      by simp
  next
    fix i show "adjacent8 (f i) (f (i + 1))" by (rule assms(2))
  qed
next
  case False
  then have ba: "b \<le> a" by simp
  have "(f b, f a) \<in> (floor_adj F)\<^sup>*"
  proof (rule chain_connected_le [where f = f and F = F])
    show "b \<le> a" by (rule ba)
  next
    fix i
    from assms(1) [of i] ba show "f i \<in> F \<or> \<not> (b \<le> i \<and> i \<le> a)"
      by simp
  next
    fix i show "adjacent8 (f i) (f (i + 1))" by (rule assms(2))
  qed
  then show ?thesis
    by (rule reach_sym)
qed

lemma row_connected:
  assumes "\<And>x. min x1 x2 \<le> x \<and> x \<le> max x1 x2 \<Longrightarrow> (y, x) \<in> F"
  shows "((y, x1), (y, x2)) \<in> (floor_adj F)\<^sup>*"
  using chain_connected [of "\<lambda>x. (y, x)" F x1 x2] assms
  by (auto simp add: adjacent8_def)

lemma column_connected:
  assumes "\<And>y. min y1 y2 \<le> y \<and> y \<le> max y1 y2 \<Longrightarrow> (y, x) \<in> F"
  shows "((y1, x), (y2, x)) \<in> (floor_adj F)\<^sup>*"
  using chain_connected [of "\<lambda>y. (y, x)" F y1 y2] assms
  by (auto simp add: adjacent8_def)

lemma carve_corridor_connects:
  assumes sh: "has_shape g width height"
    and ne: "region_a \<noteq> []" "region_b \<noteq> []"
    and ia: "in_grid region_a width height" and ib: "in_grid region_b width height"
  shows "\<exists>ng. carve_corridor g region_a region_b r = Inr ng \<and> has_shape ng width height \<and>
     set (floor_cells g) \<subseteq> set (floor_cells ng) \<and>
     (\<exists>p\<in>set region_a. \<exists>q\<in>set region_b. (p, q) \<in> (floor_adj (set (floor_cells ng)))\<^sup>*)"
proof -
  from carve_corridor_cells [OF sh ne ia ib, of r] obtain p q ng where
    p: "p \<in> set region_a" and q: "q \<in> set region_b" and
    r: "carve_corridor g region_a region_b r = Inr ng" and
    sh': "has_shape ng width height" and
    c: "\<And>y x. 0 \<le> x \<and> x < width \<and> 0 \<le> y \<and> y < height \<Longrightarrow>
        ng ! nat y ! nat x = (if on_corridor r (p, q) y x then FLOOR else g ! nat y ! nat x)"
    by blast
  obtain y1 x1 y2 x2 where pq: "p = (y1, x1)" "q = (y2, x2)"
    by (cases p; cases q) blast
  have b1: "0 \<le> y1 \<and> y1 < height" "0 \<le> x1 \<and> x1 < width"
    using in_grid_cell [OF ia, of y1 x1] p pq by simp_all
  have b2: "0 \<le> y2 \<and> y2 < height" "0 \<le> x2 \<and> x2 < width"
    using in_grid_cell [OF ib, of y2 x2] q pq by simp_all
  let ?F = "set (floor_cells ng)"
  have sub: "set (floor_cells g) \<subseteq> ?F"
  proof
    fix d assume d: "d \<in> set (floor_cells g)"
    obtain y x where yx: "d = (y, x)" by (cases d)
    from d have b: "0 \<le> x \<and> x < width \<and> 0 \<le> y \<and> y < height" and f: "g ! nat y ! nat x = FLOOR"
      unfolding yx floor_cells_shape [OF sh] by simp_all
    from c [OF b] f have "ng ! nat y ! nat x = FLOOR"
      by simp
    with b show "d \<in> ?F"
      unfolding yx floor_cells_shape [OF sh'] by simp
  qed
  have cor: "(y, x) \<in> ?F" if oc: "on_corridor r (p, q) y x" for y x
  proof -
    from oc have "(min y1 y2 \<le> y \<and> y \<le> max y1 y2) \<and> (min x1 x2 \<le> x \<and> x \<le> max x1 x2)"
      unfolding on_corridor_def pq by (auto split: if_splits)
    with b1 b2 have b: "0 \<le> x \<and> x < width \<and> 0 \<le> y \<and> y < height"
      by linarith
    from c [OF b] oc have "ng ! nat y ! nat x = FLOOR"
      by simp
    with b show ?thesis
      unfolding floor_cells_shape [OF sh'] by simp
  qed
  have "(p, q) \<in> (floor_adj ?F)\<^sup>*"
  proof (cases "r < 0.5")
    case True
    have "((y1, x1), (y1, x2)) \<in> (floor_adj ?F)\<^sup>*"
    proof (rule row_connected)
      fix x assume "min x1 x2 \<le> x \<and> x \<le> max x1 x2"
      with True show "(y1, x) \<in> ?F"
        by (intro cor) (simp add: on_corridor_def pq)
    qed
    moreover have "((y1, x2), (y2, x2)) \<in> (floor_adj ?F)\<^sup>*"
    proof (rule column_connected)
      fix y assume "min y1 y2 \<le> y \<and> y \<le> max y1 y2"
      with True show "(y, x2) \<in> ?F"
        by (intro cor) (simp add: on_corridor_def pq)
    qed
    ultimately show ?thesis
      unfolding pq by (rule rtrancl_trans)
  next
    case False
    have "((y1, x1), (y2, x1)) \<in> (floor_adj ?F)\<^sup>*"
    proof (rule column_connected)
      fix y assume "min y1 y2 \<le> y \<and> y \<le> max y1 y2"
      with False show "(y, x1) \<in> ?F"
        by (intro cor) (simp add: on_corridor_def pq)
    qed
    moreover have "((y2, x1), (y2, x2)) \<in> (floor_adj ?F)\<^sup>*"
    proof (rule row_connected)
      fix x assume "min x1 x2 \<le> x \<and> x \<le> max x1 x2"
      with False show "(y2, x) \<in> ?F"
        by (intro cor) (simp add: on_corridor_def pq)
    qed
    ultimately show ?thesis
      unfolding pq by (rule rtrancl_trans)
  qed
  with r sh' sub p q show ?thesis by blast
qed

lemma one_region_holds_connected_cells:
  assumes a: "a \<in> set (floor_cells g)" and s: "a \<in> S"
    and c: "\<And>b. b \<in> S \<Longrightarrow> (a, b) \<in> (floor_adj (set (floor_cells g)))\<^sup>*"
  shows "\<exists>!R. R \<in> set (flood_fill_regions g) \<and> S \<subseteq> set R"
proof -
  from flood_fill_regions_cover [OF a] obtain R where
    R: "R \<in> set (flood_fill_regions g)" and aR: "a \<in> set R"
    by blast
  have "S \<subseteq> set R"
  proof
    fix b assume "b \<in> S"
    from region_closed [OF R aR c [OF this]] show "b \<in> set R" .
  qed
  moreover have "R' = R" if "R' \<in> set (flood_fill_regions g)" and "S \<subseteq> set R'" for R'
    using regions_sharing_a_cell [OF that(1) R, of a] that(2) s aR by blast
  ultimately show ?thesis
    using R by blast
qed

section \<open>C4: carving joins two regions\<close>

text \<open>
  Claim C4. For two distinct regions \<open>main\<close> and \<open>candidate\<close> that the region
  finder returns for a grid, \<open>carve_corridor\<close> returns a grid, whichever branch the
  random value selects, on which the region finder returns exactly one region that
  holds all cells of both.
\<close>

theorem carve_corridor_joins_regions:
  assumes "has_shape g width height"
    and "main \<in> set (flood_fill_regions g)" and "candidate \<in> set (flood_fill_regions g)"
    and "main \<noteq> candidate"
  shows "\<exists>ng. carve_corridor g main candidate r = Inr ng \<and>
     (\<exists>!R. R \<in> set (flood_fill_regions ng) \<and> set main \<union> set candidate \<subseteq> set R)"
proof -
  note sh = assms(1) and m = assms(2) and cd = assms(3)
  from carve_corridor_connects [OF sh flood_fill_region_floor(1) [OF m]
      flood_fill_region_floor(1) [OF cd] flood_fill_region_in_grid [OF sh m]
      flood_fill_region_in_grid [OF sh cd], of r]
  obtain ng p q where
    r: "carve_corridor g main candidate r = Inr ng" and
    sub: "set (floor_cells g) \<subseteq> set (floor_cells ng)" and
    p: "p \<in> set main" and q: "q \<in> set candidate" and
    pq: "(p, q) \<in> (floor_adj (set (floor_cells ng)))\<^sup>*"
    by blast
  have pf: "p \<in> set (floor_cells ng)"
    using flood_fill_region_floor(2) [OF m] p sub by blast
  have "\<exists>!R. R \<in> set (flood_fill_regions ng) \<and> set main \<union> set candidate \<subseteq> set R"
  proof (rule one_region_holds_connected_cells [OF pf])
    show "p \<in> set main \<union> set candidate"
      using p by simp
  next
    fix b assume "b \<in> set main \<union> set candidate"
    then show "(p, b) \<in> (floor_adj (set (floor_cells ng)))\<^sup>*"
    proof
      assume "b \<in> set main"
      from reach_mono [OF sub region_cells_connected [OF m p this]] show ?thesis .
    next
      assume "b \<in> set candidate"
      from reach_mono [OF sub region_cells_connected [OF cd q this]]
      have "(q, b) \<in> (floor_adj (set (floor_cells ng)))\<^sup>*" .
      with pq show ?thesis
        by (rule rtrancl_trans)
    qed
  qed
  with r show ?thesis by blast
qed

lemma two_regions_example:
  "flood_fill_regions [[1, 1, 1, 1], [1, 0, 1, 1], [1, 1, 1, 0], [1, 1, 1, 1]] =
     [[(1, 1)], [(2, 3)]]"
  by (simp add: flood_fill_regions_def floor_cells_def FLOOR_def upt_rec flood_component_def
      grow_def adjacent8_def eval_nat_numeral)

lemma joined_region_example:
  "flood_fill_regions [[1, 1, 1, 1], [1, 0, 0, 0], [1, 1, 1, 0], [1, 1, 1, 1]] =
     [[(1, 1), (1, 2), (1, 3), (2, 3)]]"
  by (simp add: flood_fill_regions_def floor_cells_def FLOOR_def upt_rec flood_component_def
      grow_def adjacent8_def eval_nat_numeral)

theorem carve_corridor_joins_regions_witness:
  "has_shape [[1, 1, 1, 1], [1, 0, 1, 1], [1, 1, 1, 0], [1, 1, 1, 1]] 4 4 \<and>
   flood_fill_regions [[1, 1, 1, 1], [1, 0, 1, 1], [1, 1, 1, 0], [1, 1, 1, 1]] =
     [[(1, 1)], [(2, 3)]] \<and>
   carve_corridor [[1, 1, 1, 1], [1, 0, 1, 1], [1, 1, 1, 0], [1, 1, 1, 1]] [(1, 1)] [(2, 3)] (1 / 4) =
     Inr [[1, 1, 1, 1], [1, 0, 0, 0], [1, 1, 1, 0], [1, 1, 1, 1]] \<and>
   flood_fill_regions [[1, 1, 1, 1], [1, 0, 0, 0], [1, 1, 1, 0], [1, 1, 1, 1]] =
     [[(1, 1), (1, 2), (1, 3), (2, 3)]] \<and>
   (\<exists>!R. R \<in> set (flood_fill_regions [[1, 1, 1, 1], [1, 0, 0, 0], [1, 1, 1, 0], [1, 1, 1, 1]]) \<and>
      set [(1, 1)] \<union> set [(2, 3)] \<subseteq> set R)"
proof -
  let ?G = "[[1, 1, 1, 1], [1, 0, 1, 1], [1, 1, 1, 0], [1, 1, 1, 1 :: int]]"
  let ?G' = "[[1, 1, 1, 1], [1, 0, 0, 0], [1, 1, 1, 0], [1, 1, 1, 1 :: int]]"
  have sh: "has_shape ?G 4 4"
    by (simp add: has_shape_def)
  have m: "[(1, 1)] \<in> set (flood_fill_regions ?G)" and c: "[(2, 3)] \<in> set (flood_fill_regions ?G)"
    unfolding two_regions_example by simp_all
  have d: "([(1, 1)] :: region) \<noteq> [(2, 3)]"
    by simp
  from carve_corridor_joins_regions [OF sh m c d, of "1 / 4"] obtain ng where
    "carve_corridor ?G [(1, 1)] [(2, 3)] (1 / 4) = Inr ng" and
    u: "\<exists>!R. R \<in> set (flood_fill_regions ng) \<and> set [(1, 1)] \<union> set [(2, 3)] \<subseteq> set R"
    by blast
  then have "ng = ?G'"
    unfolding carve_corridor_example by simp
  with u have "\<exists>!R. R \<in> set (flood_fill_regions ?G') \<and> set [(1, 1)] \<union> set [(2, 3)] \<subseteq> set R"
    by simp
  then show ?thesis
    by (intro conjI) (rule sh two_regions_example carve_corridor_example joined_region_example)+
qed

section \<open>C5: which regions are carved\<close>

lemma connect_loop_is_carve_loop:
  "for_loop regions (connect_body main min_region rng) s =
     for_loop (filter (\<lambda>region. int (length region) \<ge> min_region \<and> region \<noteq> main) regions)
       (carve_body main rng) s"
proof (induction regions arbitrary: s)
  case Nil
  show ?case by simp
next
  case (Cons r rs)
  let ?P = "\<lambda>region. int (length region) \<ge> min_region \<and> region \<noteq> main"
  obtain g k where s: "s = (g, k)" by (cases s)
  show ?case
  proof (cases "?P r")
    case True
    then have f: "filter ?P (r # rs) = r # filter ?P rs"
      by simp
    from True have b: "connect_body main min_region rng r s = carve_body main rng r s"
      by (simp add: connect_body_def carve_body_def s)
    show ?thesis
      unfolding f for_loop.simps b using Cons.IH by (simp split: sum.splits)
  next
    case False
    then have f: "filter ?P (r # rs) = filter ?P rs"
      by simp
    from False have b: "connect_body main min_region rng r s = Inr s"
      by (auto simp add: connect_body_def s)
    show ?thesis
      unfolding f for_loop.simps b using Cons.IH by simp
  qed
qed

lemma connect_regions_is_carve_loop:
  "connect_regions regions min_region rng s =
     for_loop (carved_regions regions min_region) (carve_body (largest_region regions) rng) s"
  by (simp add: connect_regions_def carved_regions_def connect_loop_is_carve_loop)

lemma count_list_filter_distinct:
  assumes "distinct xs"
  shows "count_list (filter P xs) x = (if x \<in> set xs \<and> P x then 1 else 0)"
  using assms by (induction xs) auto

lemma carve_loop_connects:
  assumes sh: "has_shape g width height"
    and m: "main \<noteq> []" "in_grid main width height"
    and rs: "\<And>r. r \<in> set rs \<Longrightarrow> r \<noteq> [] \<and> in_grid r width height"
  shows "\<exists>s'. for_loop rs (carve_body main rng) (g, k) = Inr s' \<and>
     has_shape (fst s') width height \<and>
     set (floor_cells g) \<subseteq> set (floor_cells (fst s')) \<and>
     (\<forall>r\<in>set rs. \<exists>p\<in>set main. \<exists>q\<in>set r.
        (p, q) \<in> (floor_adj (set (floor_cells (fst s'))))\<^sup>*)"
proof -
  define I where "I pre s \<longleftrightarrow> has_shape (fst s) width height \<and>
     set (floor_cells g) \<subseteq> set (floor_cells (fst s)) \<and>
     (\<forall>r\<in>set pre. \<exists>p\<in>set main. \<exists>q\<in>set r.
        (p, q) \<in> (floor_adj (set (floor_cells (fst s))))\<^sup>*)"
    for pre :: "region list" and s :: "grid \<times> nat"
  have "\<exists>s'. for_loop rs (carve_body main rng) (g, k) = Inr s' \<and> I rs s'"
  proof (rule for_loop_invariant [where I = I])
    show "I [] (g, k)"
      using sh by (simp add: I_def)
  next
    fix pre r s
    assume i: "I pre s" and r: "r \<in> set rs"
    obtain g1 k1 where s: "s = (g1, k1)" by (cases s)
    from i s have sh1: "has_shape g1 width height"
      and sub1: "set (floor_cells g) \<subseteq> set (floor_cells g1)"
      and old: "\<forall>r\<in>set pre. \<exists>p\<in>set main. \<exists>q\<in>set r.
        (p, q) \<in> (floor_adj (set (floor_cells g1)))\<^sup>*"
      by (simp_all add: I_def)
    from rs [OF r] have rn: "r \<noteq> []" and ri: "in_grid r width height"
      by simp_all
    from carve_corridor_connects [OF sh1 m(1) rn m(2) ri, of "rng k1"] obtain ng where
      c: "carve_corridor g1 main r (rng k1) = Inr ng" and
      sh': "has_shape ng width height" and
      sub': "set (floor_cells g1) \<subseteq> set (floor_cells ng)" and
      new: "\<exists>p\<in>set main. \<exists>q\<in>set r. (p, q) \<in> (floor_adj (set (floor_cells ng)))\<^sup>*"
      by blast
    have b: "carve_body main rng r s = Inr (ng, k1 + 1)"
      using c by (simp add: carve_body_def s)
    have "I (pre @ [r]) (ng, k1 + 1)"
      unfolding I_def
    proof (intro conjI ballI)
      show "has_shape (fst (ng, k1 + 1)) width height"
        using sh' by simp
      show "set (floor_cells g) \<subseteq> set (floor_cells (fst (ng, k1 + 1)))"
        using sub1 sub' by simp
    next
      fix r' assume "r' \<in> set (pre @ [r])"
      then consider "r' \<in> set pre" | "r' = r" by auto
      then show "\<exists>p\<in>set main. \<exists>q\<in>set r'.
        (p, q) \<in> (floor_adj (set (floor_cells (fst (ng, k1 + 1)))))\<^sup>*"
      proof cases
        case 1
        with old obtain p q where pq: "p \<in> set main" "q \<in> set r'" and
          c1: "(p, q) \<in> (floor_adj (set (floor_cells g1)))\<^sup>*"
          by blast
        from c1 have "(p, q) \<in> (floor_adj (set (floor_cells ng)))\<^sup>*"
          by (rule reach_mono [OF sub'])
        with pq show ?thesis
          by auto
      next
        case 2
        with new show ?thesis by simp
      qed
    qed
    with b show "\<exists>s'. carve_body main rng r s = Inr s' \<and> I (pre @ [r]) s'"
      by blast
  qed
  then show ?thesis
    unfolding I_def by blast
qed

lemma carved_regions_join_main:
  assumes sh: "has_shape g width height"
  shows "\<exists>s'. connect_regions (flood_fill_regions g) min_region rng (g, k) = Inr s' \<and>
     (\<forall>r\<in>set (carved_regions (flood_fill_regions g) min_region).
        \<exists>!R. R \<in> set (flood_fill_regions (fst s')) \<and>
          set (largest_region (flood_fill_regions g)) \<union> set r \<subseteq> set R)"
proof (cases "flood_fill_regions g = []")
  case True
  then show ?thesis
    by (simp add: connect_regions_def carved_regions_def)
next
  case False
  let ?regions = "flood_fill_regions g"
  let ?main = "largest_region ?regions"
  let ?rs = "carved_regions ?regions min_region"
  have mm: "?main \<in> set ?regions"
    using False by (rule largest_region_member)
  have m: "?main \<noteq> []" "in_grid ?main width height"
    using flood_fill_region_floor(1) [OF mm] flood_fill_region_in_grid [OF sh mm] by simp_all
  have sub: "set ?rs \<subseteq> set ?regions"
    by (auto simp add: carved_regions_def)
  have rs: "r \<noteq> [] \<and> in_grid r width height" if "r \<in> set ?rs" for r
    using that sub flood_fill_region_floor(1) [of r g] flood_fill_region_in_grid [OF sh, of r]
    by blast
  from carve_loop_connects [OF sh m rs, of ?rs rng k] obtain s' where
    l: "for_loop ?rs (carve_body ?main rng) (g, k) = Inr s'" and
    fl: "set (floor_cells g) \<subseteq> set (floor_cells (fst s'))" and
    cn: "\<forall>r\<in>set ?rs. \<exists>p\<in>set ?main. \<exists>q\<in>set r.
        (p, q) \<in> (floor_adj (set (floor_cells (fst s'))))\<^sup>*"
    by blast
  have "\<exists>!R. R \<in> set (flood_fill_regions (fst s')) \<and> set ?main \<union> set r \<subseteq> set R"
    if r: "r \<in> set ?rs" for r
  proof -
    from r sub have rr: "r \<in> set ?regions" by blast
    from cn r obtain p q where p: "p \<in> set ?main" and q: "q \<in> set r" and
      pq: "(p, q) \<in> (floor_adj (set (floor_cells (fst s'))))\<^sup>*"
      by blast
    have pf: "p \<in> set (floor_cells (fst s'))"
      using flood_fill_region_floor(2) [OF mm] p fl by blast
    show ?thesis
    proof (rule one_region_holds_connected_cells [OF pf])
      show "p \<in> set ?main \<union> set r"
        using p by simp
    next
      fix b assume "b \<in> set ?main \<union> set r"
      then show "(p, b) \<in> (floor_adj (set (floor_cells (fst s'))))\<^sup>*"
      proof
        assume "b \<in> set ?main"
        from reach_mono [OF fl region_cells_connected [OF mm p this]] show ?thesis .
      next
        assume "b \<in> set r"
        from reach_mono [OF fl region_cells_connected [OF rr q this]]
        have "(q, b) \<in> (floor_adj (set (floor_cells (fst s'))))\<^sup>*" .
        with pq show ?thesis
          by (rule rtrancl_trans)
      qed
    qed
  qed
  with l show ?thesis
    unfolding connect_regions_is_carve_loop by blast
qed

text \<open>
  The main region: \<open>largest_region\<close> returns a region of the list that no region
  of the list exceeds in length, and the first such region of the list.
\<close>

lemma fold_pick_first_max:
  fixes r :: region
  shows "\<exists>i<length (r # rs).
     fold (\<lambda>region best. if length region > length best then region else best) rs r =
       (r # rs) ! i \<and>
     (\<forall>j<length (r # rs). length ((r # rs) ! j) \<le> length ((r # rs) ! i)) \<and>
     (\<forall>j<i. length ((r # rs) ! j) < length ((r # rs) ! i))"
proof (induction rs rule: rev_induct)
  case Nil
  show ?case by simp
next
  case (snoc x xs)
  let ?f = "\<lambda>region best :: region. if length region > length best then region else best"
  define l where "l = r # xs"
  from snoc obtain i where i: "i < length l"
    and e: "fold ?f xs r = l ! i"
    and le: "\<And>j. j < length l \<Longrightarrow> length (l ! j) \<le> length (l ! i)"
    and lt: "\<And>j. j < i \<Longrightarrow> length (l ! j) < length (l ! i)"
    unfolding l_def by blast
  have app: "r # xs @ [x] = l @ [x]"
    by (simp add: l_def)
  show ?case
  proof (cases "length x > length (l ! i)")
    case True
    have "fold ?f (xs @ [x]) r = (l @ [x]) ! length l"
      using e True by simp
    moreover have "length ((l @ [x]) ! j) \<le> length ((l @ [x]) ! length l)"
      if "j < length (l @ [x])" for j
    proof (cases "j < length l")
      case True
      with le [of j] \<open>length x > length (l ! i)\<close> show ?thesis
        by (simp add: nth_append)
    next
      case False
      with that have "j = length l" by simp
      then show ?thesis by simp
    qed
    moreover have "length ((l @ [x]) ! j) < length ((l @ [x]) ! length l)"
      if "j < length l" for j
      using le [OF that] True that by (simp add: nth_append)
    ultimately show ?thesis
      unfolding app by (intro exI [of _ "length l"]) simp
  next
    case False
    have "fold ?f (xs @ [x]) r = (l @ [x]) ! i"
      using e False i by (simp add: nth_append)
    moreover have "length ((l @ [x]) ! j) \<le> length ((l @ [x]) ! i)"
      if "j < length (l @ [x])" for j
    proof (cases "j < length l")
      case True
      with le [of j] i show ?thesis
        by (simp add: nth_append)
    next
      case False
      with that have "j = length l" by simp
      with \<open>\<not> length x > length (l ! i)\<close> i show ?thesis
        by (simp add: nth_append)
    qed
    moreover have "length ((l @ [x]) ! j) < length ((l @ [x]) ! i)" if "j < i" for j
      using lt [OF that] that i by (simp add: nth_append)
    ultimately show ?thesis
      unfolding app using i by (intro exI [of _ i]) simp
  qed
qed

lemma largest_region_first_max:
  assumes "regions \<noteq> []"
  shows "\<exists>i<length regions. largest_region regions = regions ! i \<and>
     (\<forall>j<length regions. length (regions ! j) \<le> length (regions ! i)) \<and>
     (\<forall>j<i. length (regions ! j) < length (regions ! i))"
proof -
  from assms obtain r rs where e: "regions = r # rs"
    by (cases regions) simp_all
  show ?thesis
    unfolding e largest_region.simps by (rule fold_pick_first_max)
qed

lemma largest_region_greatest:
  assumes "r \<in> set regions"
  shows "length r \<le> length (largest_region regions)"
proof -
  from assms have ne: "regions \<noteq> []" by auto
  from largest_region_first_max [OF ne] obtain i where
    e: "largest_region regions = regions ! i" and
    le: "\<forall>j<length regions. length (regions ! j) \<le> length (regions ! i)"
    by blast
  from assms obtain j where "j < length regions" and "regions ! j = r"
    by (meson in_set_conv_nth)
  with le e show ?thesis by auto
qed

text \<open>
  Claim C5. In the loop of \<open>generate_cave\<close> over the regions that the region finder
  returned, the main region is a region of the list with the greatest number of cells
  (the first such region of the list), and \<open>carve_corridor\<close> is invoked once for each
  region with at least \<open>min_region\<close> cells that is not the main region, in the order of
  the list, and for no other region; the loop returns a grid, on which the region
  finder returns exactly one region holding the main region and each carved region.
  With \<open>min_region \<le> 0\<close> the carved regions are all regions but the main one, a
  single isolated cell included.
\<close>

theorem carve_corridor_invoked_once_per_qualifying_region:
  assumes "has_shape g width height" and "regions = flood_fill_regions g"
  shows "connect_regions regions min_region rng (g, k) =
       for_loop (carved_regions regions min_region) (carve_body (largest_region regions) rng) (g, k) \<and>
     (regions \<noteq> [] \<longrightarrow>
        largest_region regions \<in> set regions \<and>
        (\<forall>r\<in>set regions. length r \<le> length (largest_region regions)) \<and>
        (\<exists>i<length regions. largest_region regions = regions ! i \<and>
           (\<forall>j<i. length (regions ! j) < length (largest_region regions)))) \<and>
     (\<forall>r. count_list (carved_regions regions min_region) r =
        (if r \<in> set regions \<and> int (length r) \<ge> min_region \<and> r \<noteq> largest_region regions
         then 1 else 0)) \<and>
     (min_region \<le> 0 \<longrightarrow>
        set (carved_regions regions min_region) = set regions - {largest_region regions}) \<and>
     (\<exists>s'. connect_regions regions min_region rng (g, k) = Inr s' \<and>
        (\<forall>r\<in>set (carved_regions regions min_region).
           \<exists>!R. R \<in> set (flood_fill_regions (fst s')) \<and>
             set (largest_region regions) \<union> set r \<subseteq> set R))"
proof -
  have c1: "connect_regions regions min_region rng (g, k) =
       for_loop (carved_regions regions min_region) (carve_body (largest_region regions) rng) (g, k)"
    by (rule connect_regions_is_carve_loop)
  have c2: "largest_region regions \<in> set regions \<and>
        (\<forall>r\<in>set regions. length r \<le> length (largest_region regions)) \<and>
        (\<exists>i<length regions. largest_region regions = regions ! i \<and>
           (\<forall>j<i. length (regions ! j) < length (largest_region regions)))"
    if ne: "regions \<noteq> []"
  proof (intro conjI ballI)
    show "largest_region regions \<in> set regions"
      using ne by (rule largest_region_member)
  next
    fix r assume "r \<in> set regions"
    then show "length r \<le> length (largest_region regions)"
      by (rule largest_region_greatest)
  next
    from largest_region_first_max [OF ne] obtain i where
      i: "i < length regions" and e: "largest_region regions = regions ! i" and
      lt: "\<forall>j<i. length (regions ! j) < length (regions ! i)"
      by blast
    from lt have "\<forall>j<i. length (regions ! j) < length (largest_region regions)"
      unfolding e .
    with i e show "\<exists>i<length regions. largest_region regions = regions ! i \<and>
           (\<forall>j<i. length (regions ! j) < length (largest_region regions))"
      by blast
  qed
  have c3: "count_list (carved_regions regions min_region) r =
        (if r \<in> set regions \<and> int (length r) \<ge> min_region \<and> r \<noteq> largest_region regions
         then 1 else 0)" for r
  proof -
    have "distinct regions"
      unfolding assms(2) by (rule flood_fill_regions_distinct)
    from count_list_filter_distinct [OF this] show ?thesis
      unfolding carved_regions_def by simp
  qed
  have c4: "set (carved_regions regions min_region) = set regions - {largest_region regions}"
    if "min_region \<le> 0"
  proof -
    from that have "int (length r) \<ge> min_region" for r :: region
      by linarith
    then show ?thesis
      unfolding carved_regions_def by auto
  qed
  have c5: "\<exists>s'. connect_regions regions min_region rng (g, k) = Inr s' \<and>
        (\<forall>r\<in>set (carved_regions regions min_region).
           \<exists>!R. R \<in> set (flood_fill_regions (fst s')) \<and>
             set (largest_region regions) \<union> set r \<subseteq> set R)"
    using carved_regions_join_main [OF assms(1), of min_region rng k]
    unfolding assms(2) .
  have p2: "regions \<noteq> [] \<longrightarrow>
        largest_region regions \<in> set regions \<and>
        (\<forall>r\<in>set regions. length r \<le> length (largest_region regions)) \<and>
        (\<exists>i<length regions. largest_region regions = regions ! i \<and>
           (\<forall>j<i. length (regions ! j) < length (largest_region regions)))"
    using c2 by (rule impI)
  have p3: "\<forall>r. count_list (carved_regions regions min_region) r =
        (if r \<in> set regions \<and> int (length r) \<ge> min_region \<and> r \<noteq> largest_region regions
         then 1 else 0)"
    using c3 by (rule allI)
  have p4: "min_region \<le> 0 \<longrightarrow>
        set (carved_regions regions min_region) = set regions - {largest_region regions}"
    using c4 by (rule impI)
  show ?thesis
    by (rule conjI [OF c1 conjI [OF p2 conjI [OF p3 conjI [OF p4 c5]]]])
qed

lemma small_and_large_regions_example:
  "flood_fill_regions
     [[1, 1, 1, 1, 1, 1], [1, 0, 1, 1, 1, 1], [1, 1, 1, 1, 1, 1], [1, 1, 1, 0, 0, 1],
      [1, 1, 1, 1, 1, 1]] =
     [[(1, 1)], [(3, 3), (3, 4)]]"
  by (simp add: flood_fill_regions_def floor_cells_def FLOOR_def upt_rec flood_component_def
      grow_def adjacent8_def eval_nat_numeral)

lemma main_is_second_example: "largest_region [[(1, 1)], [(3, 3), (3, 4)]] = [(3, 3), (3, 4)]"
  by simp

lemma carve_to_small_region_example:
  "carve_corridor
     [[1, 1, 1, 1, 1, 1], [1, 0, 1, 1, 1, 1], [1, 1, 1, 1, 1, 1], [1, 1, 1, 0, 0, 1],
      [1, 1, 1, 1, 1, 1]] [(3, 3), (3, 4)] [(1, 1)] (1 / 4) =
     Inr [[1, 1, 1, 1, 1, 1], [1, 0, 1, 1, 1, 1], [1, 0, 1, 1, 1, 1], [1, 0, 0, 0, 0, 1],
          [1, 1, 1, 1, 1, 1]]"
  by (simp add: carve_corridor_def best_pair_def search_body_def manhattan_def py_range_def
      upto.simps grid_set_def np_index_def FLOOR_def)

lemma connect_regions_example:
  "connect_regions [[(1, 1)], [(3, 3), (3, 4)]] 0 (\<lambda>_. 1 / 4)
      ([[1, 1, 1, 1, 1, 1], [1, 0, 1, 1, 1, 1], [1, 1, 1, 1, 1, 1], [1, 1, 1, 0, 0, 1],
        [1, 1, 1, 1, 1, 1]], 0) =
     Inr ([[1, 1, 1, 1, 1, 1], [1, 0, 1, 1, 1, 1], [1, 0, 1, 1, 1, 1], [1, 0, 0, 0, 0, 1],
           [1, 1, 1, 1, 1, 1]], 1)"
  by (simp add: connect_regions_def connect_body_def carve_to_small_region_example)

lemma carved_regions_example: "carved_regions [[(1, 1)], [(3, 3), (3, 4)]] 0 = [[(1, 1)]]"
  by (simp add: carved_regions_def)

lemma carved_regions_threshold_example: "carved_regions [[(1, 1)], [(3, 3), (3, 4)]] 2 = []"
  by (simp add: carved_regions_def)

theorem carve_corridor_invoked_once_witness:
  "has_shape
     [[1, 1, 1, 1, 1, 1], [1, 0, 1, 1, 1, 1], [1, 1, 1, 1, 1, 1], [1, 1, 1, 0, 0, 1],
      [1, 1, 1, 1, 1, 1]] 6 5 \<and>
   [[(1, 1)], [(3, 3), (3, 4)]] =
     flood_fill_regions
       [[1, 1, 1, 1, 1, 1], [1, 0, 1, 1, 1, 1], [1, 1, 1, 1, 1, 1], [1, 1, 1, 0, 0, 1],
        [1, 1, 1, 1, 1, 1]] \<and>
   largest_region [[(1, 1)], [(3, 3), (3, 4)]] = [(3, 3), (3, 4)] \<and>
   length ([(1, 1)] :: region) \<le> length (largest_region [[(1, 1)], [(3, 3), (3, 4)]]) \<and>
   carved_regions [[(1, 1)], [(3, 3), (3, 4)]] 0 = [[(1, 1)]] \<and>
   carved_regions [[(1, 1)], [(3, 3), (3, 4)]] 2 = [] \<and>
   connect_regions [[(1, 1)], [(3, 3), (3, 4)]] 0 (\<lambda>_. 1 / 4)
      ([[1, 1, 1, 1, 1, 1], [1, 0, 1, 1, 1, 1], [1, 1, 1, 1, 1, 1], [1, 1, 1, 0, 0, 1],
        [1, 1, 1, 1, 1, 1]], 0) =
     Inr ([[1, 1, 1, 1, 1, 1], [1, 0, 1, 1, 1, 1], [1, 0, 1, 1, 1, 1], [1, 0, 0, 0, 0, 1],
           [1, 1, 1, 1, 1, 1]], 1) \<and>
   count_list (carved_regions [[(1, 1)], [(3, 3), (3, 4)]] 0) [(1, 1)] = 1 \<and>
   count_list (carved_regions [[(1, 1)], [(3, 3), (3, 4)]] 0) [(3, 3), (3, 4)] = 0 \<and>
   count_list (carved_regions [[(1, 1)], [(3, 3), (3, 4)]] 2) [(1, 1)] = 0 \<and>
   (\<exists>!R. R \<in> set (flood_fill_regions
        [[1, 1, 1, 1, 1, 1], [1, 0, 1, 1, 1, 1], [1, 0, 1, 1, 1, 1], [1, 0, 0, 0, 0, 1],
         [1, 1, 1, 1, 1, 1]]) \<and>
      set (largest_region [[(1, 1)], [(3, 3), (3, 4)]]) \<union> set [(1, 1)] \<subseteq> set R)"
proof -
  let ?G = "[[1, 1, 1, 1, 1, 1], [1, 0, 1, 1, 1, 1], [1, 1, 1, 1, 1, 1], [1, 1, 1, 0, 0, 1],
      [1, 1, 1, 1, 1, 1 :: int]]"
  let ?G' = "[[1, 1, 1, 1, 1, 1], [1, 0, 1, 1, 1, 1], [1, 0, 1, 1, 1, 1], [1, 0, 0, 0, 0, 1],
      [1, 1, 1, 1, 1, 1 :: int]]"
  let ?rs = "[[(1, 1)], [(3, 3), (3, 4)]] :: region list"
  have sh: "has_shape ?G 6 5"
    by (simp add: has_shape_def)
  have rg: "?rs = flood_fill_regions ?G"
    by (rule small_and_large_regions_example [symmetric])
  note t = carve_corridor_invoked_once_per_qualifying_region [OF sh rg, of 0 "\<lambda>_. 1 / 4" 0]
  note t2 = carve_corridor_invoked_once_per_qualifying_region [OF sh rg, of 2 "\<lambda>_. 1 / 4" 0]
  have ne: "?rs \<noteq> []"
    by simp
  from t ne have mx: "\<forall>r\<in>set ?rs. length r \<le> length (largest_region ?rs)"
    by blast
  have m1: "[(1, 1)] \<in> set ?rs"
    by simp
  have g1: "length ([(1, 1)] :: region) \<le> length (largest_region ?rs)"
    using mx [rule_format, OF m1] .
  from t have c: "\<forall>r. count_list (carved_regions ?rs 0) r =
        (if r \<in> set ?rs \<and> int (length r) \<ge> 0 \<and> r \<noteq> largest_region ?rs then 1 else 0)"
    by blast
  from t2 have c': "\<forall>r. count_list (carved_regions ?rs 2) r =
        (if r \<in> set ?rs \<and> int (length r) \<ge> 2 \<and> r \<noteq> largest_region ?rs then 1 else 0)"
    by blast
  have c1: "count_list (carved_regions ?rs 0) [(1, 1)] = 1"
    unfolding c [rule_format] by simp
  have c0: "count_list (carved_regions ?rs 0) [(3, 3), (3, 4)] = 0"
    unfolding c [rule_format] by simp
  have c2: "count_list (carved_regions ?rs 2) [(1, 1)] = 0"
    unfolding c' [rule_format] by simp
  from t obtain s' where
    s: "connect_regions ?rs 0 (\<lambda>_. 1 / 4) (?G, 0) = Inr s'" and
    j: "\<forall>r\<in>set (carved_regions ?rs 0).
           \<exists>!R. R \<in> set (flood_fill_regions (fst s')) \<and> set (largest_region ?rs) \<union> set r \<subseteq> set R"
    by blast
  from s have s': "s' = (?G', 1)"
    unfolding connect_regions_example by simp
  have mem: "[(1, 1)] \<in> set (carved_regions ?rs 0)"
    unfolding carved_regions_example by simp
  have f: "fst s' = ?G'"
    unfolding s' by simp
  have u: "\<exists>!R. R \<in> set (flood_fill_regions ?G') \<and>
      set (largest_region ?rs) \<union> set [(1, 1)] \<subseteq> set R"
    using j [rule_format, OF mem] unfolding f .
  show ?thesis
    by (intro conjI)
      (rule sh rg main_is_second_example g1 carved_regions_example
        carved_regions_threshold_example connect_regions_example c1 c0 c2 u)+
qed

end
